theory Spec2Isabelle
  imports Main "HOL-Library.Word"
begin

unbundle bit_operations_syntax

section \<open>Elliptic-curve points over GF(p): point\_gfp.cpp\<close>

text \<open>
  A shallow embedding of \<^verbatim>\<open>src/math/numbertheory/point_gfp.cpp\<close>. A \<^verbatim>\<open>BigInt\<close> is an
  \<open>int\<close>, a \<^verbatim>\<open>byte\<close> an \<open>8 word\<close>, an octet string a list of bytes. Every \<^verbatim>\<open>throw\<close> of the
  source is an \<open>Inl\<close> of the result; a function that cannot throw returns its value
  directly.
\<close>

type_synonym byte = "8 word"

datatype error = Invalid_Argument | Illegal_Point | Illegal_Transformation | Encoding_Error

subsection \<open>Collaborators declared outside the source file\<close>

text \<open>
  Modelled from the spec: the curve domain (class \<^verbatim>\<open>CurveGFp\<close>, declared in a header that
  is not part of the sources). The spec lists what it exposes: the prime \<open>p\<close>, the
  coefficients \<open>a\<close> and \<open>b\<close>, and the precomputed Montgomery constants \<open>R\<close>, \<open>R\<^sup>-\<^sup>1\<close>,
  \<open>a\<cdot>R\<close> and \<open>p'\<close>; \<open>get_p_words\<close> is the word count of \<open>p\<close>. The fields carry the names of
  the accessors the source calls.
\<close>

record CurveGFp =
  get_p :: int
  get_a :: int
  get_b :: int
  get_r :: int
  get_r_inv :: int
  get_a_r :: int
  get_p_dash :: int
  get_p_words :: nat

text \<open>
  Modelled from the spec: equality of curves (\<^verbatim>\<open>CurveGFp::operator==\<close>), ``by domain
  parameters, not reference''.
\<close>

definition curve_eq :: "CurveGFp \<Rightarrow> CurveGFp \<Rightarrow> bool" where
  "curve_eq c d \<longleftrightarrow> get_p c = get_p d \<and> get_a c = get_a d \<and> get_b c = get_b d"

text \<open>
  Modelled from the spec: the modular-reduction helper bound to \<open>p\<close>
  (\<^verbatim>\<open>Modular_Reducer\<close>, reached through \<^verbatim>\<open>curve.mod_p()\<close>): reduce, multiply, square, cube.
\<close>

definition reduce :: "CurveGFp \<Rightarrow> int \<Rightarrow> int" where
  "reduce c x = x mod get_p c"

definition multiply :: "CurveGFp \<Rightarrow> int \<Rightarrow> int \<Rightarrow> int" where
  "multiply c x y = reduce c (x * y)"

definition square :: "CurveGFp \<Rightarrow> int \<Rightarrow> int" where
  "square c x = reduce c (x * x)"

definition cube :: "CurveGFp \<Rightarrow> int \<Rightarrow> int" where
  "cube c x = multiply c x (square c x)"

text \<open>
  Modelled from the spec: the modular inverse (\<^verbatim>\<open>inverse_mod\<close> of numthry.h): the inverse
  of \<open>n\<close> modulo \<open>m\<close> in \<open>[0, m)\<close>, and 0 when there is none.
\<close>

definition inverse_mod :: "int \<Rightarrow> int \<Rightarrow> int" where
  "inverse_mod n m =
     (case List.find (\<lambda>i. (n * i) mod m = 1) [0..m - 1] of Some i \<Rightarrow> i | None \<Rightarrow> 0)"

text \<open>
  Modelled from the spec: the modular square root (\<^verbatim>\<open>ressol\<close> of numthry.h, the spec's
  \<open>modular_sqrt(a, p)\<close>): a root of \<open>a\<close> modulo \<open>p\<close> in \<open>[0, p)\<close>, and a negative value when
  no root exists.
\<close>

definition ressol :: "int \<Rightarrow> int \<Rightarrow> int" where
  "ressol a p =
     (case List.find (\<lambda>z. (z * z) mod p = a mod p) [0..p - 1] of Some z \<Rightarrow> z | None \<Rightarrow> - 1)"

text \<open>
  Modelled from the spec: the big-integer operations the source calls (``bit access,
  shifting, and fixed-width big-endian encode/decode''). They read the magnitude of the
  number. \<open>bits\<close> is the number of significant bits, \<open>bytes\<close> the number of significant
  bytes.
\<close>

function bits :: "int \<Rightarrow> nat" where
  "bits n = (if n = 0 then 0 else Suc (bits (\<bar>n\<bar> div 2)))"
  by pat_completeness auto
termination
  by (relation "measure (\<lambda>n. nat \<bar>n\<bar>)") auto

declare bits.simps [simp del]

definition bytes :: "int \<Rightarrow> nat" where
  "bytes n = (bits n + 7) div 8"

definition get_bit :: "int \<Rightarrow> nat \<Rightarrow> bool" where
  "get_bit n i = odd (\<bar>n\<bar> div 2 ^ i)"

definition get_substring :: "int \<Rightarrow> nat \<Rightarrow> nat \<Rightarrow> int" where
  "get_substring n offset len = (\<bar>n\<bar> div 2 ^ offset) mod 2 ^ len"

text \<open>
  Modelled from the spec: \<^verbatim>\<open>BigInt::decode(buf, length)\<close>, the big-endian value of the
  bytes.
\<close>

definition decode :: "byte list \<Rightarrow> int" where
  "decode buf = foldl (\<lambda>acc b. acc * 256 + uint b) 0 buf"

text \<open>
  Modelled from the spec: \<^verbatim>\<open>BigInt::encode_1363(n, bytes)\<close>, the fixed-width big-endian
  encoding: the magnitude in exactly \<open>k\<close> bytes, zero-padded on the left (\<open>be_bytes\<close> gives
  the \<open>k\<close> low-order bytes, most significant first). It fails when \<open>n\<close> needs more than
  \<open>k\<close> bytes.
\<close>

primrec be_bytes :: "nat \<Rightarrow> int \<Rightarrow> byte list" where
  "be_bytes 0 n = []"
| "be_bytes (Suc k) n = be_bytes k (n div 256) @ [word_of_int (n mod 256)]"

definition encode_1363 :: "int \<Rightarrow> nat \<Rightarrow> error + byte list" where
  "encode_1363 n k = (if bytes n > k then Inl Encoding_Error else Inr (be_bytes k \<bar>n\<bar>))"

text \<open>
  Modelled from the spec: the word kernels behind the Montgomery multiply
  (\<^verbatim>\<open>bigint_simple_mul\<close>, \<^verbatim>\<open>bigint_simple_sqr\<close>, \<^verbatim>\<open>bigint_monty_redc\<close> of mp\_core.h), on the
  value of the scratch buffer. The product is the ordinary one. REDC runs over the
  \<open>x_size\<close> words of the modulus \<open>x\<close>: word \<open>i\<close> of the buffer times \<open>p'\<close> gives the multiple
  of \<open>x\<close> that clears that word; a last conditional subtraction brings the high half below
  \<open>x\<close>. \<open>MP_WORD_BITS\<close> is the width of a machine word.
\<close>

definition MP_WORD_BITS :: nat where
  "MP_WORD_BITS = 32"

definition bigint_monty_redc :: "int \<Rightarrow> int \<Rightarrow> nat \<Rightarrow> int \<Rightarrow> int" where
  "bigint_monty_redc z x x_size u =
     (let B = 2 ^ MP_WORD_BITS;
          z' = fold (\<lambda>i z. let y = (((z div B ^ i) mod B) * u) mod B
                            in z + y * x * B ^ i) [0..<x_size] z
      in if z' div B ^ x_size \<ge> x then z' - x * B ^ x_size else z')"

text \<open>The \<open>p_size\<close> words copied out of the buffer, from word \<open>p_size\<close> on.\<close>

definition high_half :: "int \<Rightarrow> nat \<Rightarrow> int" where
  "high_half z p_size =
     (z div (2 ^ MP_WORD_BITS) ^ p_size) mod (2 ^ MP_WORD_BITS) ^ p_size"

subsection \<open>The point and its constructors\<close>

record PointGFp =
  curve :: CurveGFp
  coord_x :: int
  coord_y :: int
  coord_z :: int

text \<open>\<^verbatim>\<open>PointGFp::PointGFp(const CurveGFp& curve)\<close>: the point at infinity.\<close>

definition PointGFp_zero :: "CurveGFp \<Rightarrow> PointGFp" where
  "PointGFp_zero c = \<lparr>curve = c, coord_x = 0, coord_y = get_r c, coord_z = 0\<rparr>"

text \<open>\<^verbatim>\<open>PointGFp::PointGFp(const CurveGFp& curve, const BigInt& x, const BigInt& y)\<close>.\<close>

definition PointGFp_xy :: "CurveGFp \<Rightarrow> int \<Rightarrow> int \<Rightarrow> PointGFp" where
  "PointGFp_xy c x y =
     \<lparr>curve = c,
      coord_x = multiply c (get_r c) x,
      coord_y = multiply c (get_r c) y,
      coord_z = reduce c (get_r c)\<rparr>"

text \<open>
  Modelled from the spec: \<^verbatim>\<open>is_zero\<close> and \<^verbatim>\<open>negate\<close> (inline members of the class, in the
  header). A point is the point at infinity iff \<open>z = 0\<close>; negation mirrors \<open>y\<close> of a finite
  point in the field and leaves infinity alone.
\<close>

definition is_zero :: "PointGFp \<Rightarrow> bool" where
  "is_zero P \<longleftrightarrow> coord_z P = 0"

definition negate :: "PointGFp \<Rightarrow> PointGFp" where
  "negate P = (if is_zero P then P else P\<lparr>coord_y := get_p (curve P) - coord_y P\<rparr>)"

subsection \<open>Montgomery multiply and square\<close>

text \<open>
  \<^verbatim>\<open>PointGFp::monty_mult\<close> and \<^verbatim>\<open>PointGFp::monty_sqr\<close>. The workspace a point operation
  allocates holds \<open>2 \<cdot> get_p_words + 1\<close> words, so \<^verbatim>\<open>p_size = (workspace.size() - 1) / 2\<close> is
  \<open>get_p_words\<close>. The buffer is cleared before every use, so it carries nothing from one
  call to the next and is not part of the state.
\<close>

definition monty_mult :: "CurveGFp \<Rightarrow> int \<Rightarrow> int \<Rightarrow> int" where
  "monty_mult c a b =
     (if a = 0 \<or> b = 0 then 0
      else let p_size = get_p_words c
           in high_half (bigint_monty_redc (a * b) (get_p c) p_size (get_p_dash c)) p_size)"

definition monty_sqr :: "CurveGFp \<Rightarrow> int \<Rightarrow> int" where
  "monty_sqr c x =
     (if x = 0 then 0
      else let p_size = get_p_words c
           in high_half (bigint_monty_redc (x * x) (get_p c) p_size (get_p_dash c)) p_size)"

subsection \<open>Doubling and addition\<close>

text \<open>
  The loop \<^verbatim>\<open>while(S.is_negative()) S += curve.get_p();\<close> of \<^verbatim>\<open>mult2\<close>. It never ends when
  \<open>S\<close> is negative and the modulus is not positive: that is the result \<open>None\<close>.
\<close>

function add_while_negative :: "int \<Rightarrow> int \<Rightarrow> int option" where
  "add_while_negative p S =
     (if S < 0 then (if 0 < p then add_while_negative p (S + p) else None) else Some S)"
  by pat_completeness auto
termination
  by (relation "measure (\<lambda>(p, S). nat (- S))") auto

declare add_while_negative.simps [simp del]

text \<open>\<^verbatim>\<open>PointGFp::mult2\<close>: \<open>*this *= 2\<close>.\<close>

definition mult2 :: "PointGFp \<Rightarrow> PointGFp option" where
  "mult2 P =
     (if is_zero P then Some P
      else if coord_y P = 0 then Some (PointGFp_zero (curve P))
      else
        let c = curve P;
            y_2 = monty_sqr c (coord_y P);
            S = reduce c (4 * monty_mult c (coord_x P) y_2);
            z4 = monty_sqr c (monty_sqr c (coord_z P));
            a_z4 = monty_mult c (get_a_r c) z4;
            M = reduce c (a_z4 + 3 * monty_sqr c (coord_x P));
            x = reduce c (monty_sqr c M - 2 * S);
            U = reduce c (push_bit 3 (monty_sqr c y_2))
        in case add_while_negative (get_p c) (S - x) of
             None \<Rightarrow> None
           | Some S' \<Rightarrow>
               let y0 = monty_mult c M S' - U;
                   y = (if y0 < 0 then y0 + get_p c else y0);
                   z0 = 2 * monty_mult c (coord_y P) (coord_z P);
                   z = (if z0 \<ge> get_p c then z0 - get_p c else z0)
               in Some (P\<lparr>coord_x := x, coord_y := y, coord_z := z\<rparr>))"

text \<open>\<^verbatim>\<open>PointGFp::add\<close>: \<open>*this += rhs\<close>, on the curve of \<open>*this\<close>.\<close>

definition add :: "PointGFp \<Rightarrow> PointGFp \<Rightarrow> PointGFp option" where
  "add P rhs =
     (if is_zero P then
        Some (P\<lparr>coord_x := coord_x rhs, coord_y := coord_y rhs, coord_z := coord_z rhs\<rparr>)
      else if is_zero rhs then Some P
      else
        let c = curve P;
            rhs_z2 = monty_sqr c (coord_z rhs);
            U1 = monty_mult c (coord_x P) rhs_z2;
            S1 = monty_mult c (coord_y P) (monty_mult c (coord_z rhs) rhs_z2);
            lhs_z2 = monty_sqr c (coord_z P);
            U2 = monty_mult c (coord_x rhs) lhs_z2;
            S2 = monty_mult c (coord_y rhs) (monty_mult c (coord_z P) lhs_z2);
            H = reduce c (U2 - U1);
            r = reduce c (S2 - S1)
        in if H = 0 then (if r = 0 then mult2 P else Some (PointGFp_zero c))
           else
             let U2a = monty_sqr c H;
                 S2a = monty_mult c U2a H;
                 U2b = monty_mult c U1 U2a;
                 x = reduce c (monty_sqr c r - S2a - U2b * 2);
                 U2c = U2b - x;
                 U2d = (if U2c < 0 then U2c + get_p c else U2c);
                 y0 = monty_mult c r U2d - monty_mult c S1 S2a;
                 y = (if y0 < 0 then y0 + get_p c else y0);
                 z = monty_mult c (monty_mult c (coord_z P) (coord_z rhs)) H
             in Some (P\<lparr>coord_x := x, coord_y := y, coord_z := z\<rparr>))"

text \<open>
  The two differences \<open>H\<close> and \<open>r\<close> of the addition formula, as \<^verbatim>\<open>add\<close> computes them
  before it chooses between doubling, infinity and the general case.
\<close>

definition add_H :: "PointGFp \<Rightarrow> PointGFp \<Rightarrow> int" where
  "add_H P rhs =
     (let c = curve P;
          U1 = monty_mult c (coord_x P) (monty_sqr c (coord_z rhs));
          U2 = monty_mult c (coord_x rhs) (monty_sqr c (coord_z P))
      in reduce c (U2 - U1))"

definition add_r :: "PointGFp \<Rightarrow> PointGFp \<Rightarrow> int" where
  "add_r P rhs =
     (let c = curve P;
          S1 = monty_mult c (coord_y P) (monty_mult c (coord_z rhs) (monty_sqr c (coord_z rhs)));
          S2 = monty_mult c (coord_y rhs) (monty_mult c (coord_z P) (monty_sqr c (coord_z P)))
      in reduce c (S2 - S1))"

subsection \<open>Scalar multiplication\<close>

text \<open>
  \<^verbatim>\<open>PointGFp::operator*=\<close>. \<open>small_mul\<close> is the block guarded by
  \<^verbatim>\<open>scalar.abs() <= 2\<close>; \<open>mul_loop\<close> is the \<^verbatim>\<open>for\<close> loop over the two-bit windows, with the
  loop counter \<open>i\<close> and the accumulator \<open>H\<close> as arguments; \<open>general_mul\<close> is the rest of the
  body. \<^verbatim>\<open>P * 2\<close> there is \<^verbatim>\<open>operator*=\<close> on a copy with the scalar 2, which takes the
  small-value block; \<^verbatim>\<open>P2 + P\<close> is \<^verbatim>\<open>add\<close> on a copy of \<open>P2\<close>.
\<close>

definition small_mul :: "PointGFp \<Rightarrow> int \<Rightarrow> PointGFp option" where
  "small_mul P scalar =
     (let val = \<bar>scalar\<bar> in
      if val = 0 then Some (PointGFp_zero (curve P))
      else if val = 1 then (if scalar < 0 then Some (negate P) else Some P)
      else if val = 2 then
        (case mult2 P of
           None \<Rightarrow> None
         | Some D \<Rightarrow> if scalar < 0 then Some (negate D) else Some D)
      else Some P)"

function mul_loop ::
  "int \<Rightarrow> nat \<Rightarrow> PointGFp \<Rightarrow> PointGFp \<Rightarrow> PointGFp \<Rightarrow> nat \<Rightarrow> PointGFp \<Rightarrow> PointGFp option" where
  "mul_loop scalar scalar_bits P P2 P3 i H =
     (if i < scalar_bits - 1 then
        (let nibble = get_substring scalar (scalar_bits - i - 2) 2 in
         case mult2 H of
           None \<Rightarrow> None
         | Some H1 \<Rightarrow>
             (case mult2 H1 of
                None \<Rightarrow> None
              | Some H2 \<Rightarrow>
                  (case (if nibble = 3 then add H2 P3
                         else if nibble = 2 then add H2 P2
                         else if nibble = 1 then add H2 P
                         else Some H2) of
                     None \<Rightarrow> None
                   | Some H3 \<Rightarrow> mul_loop scalar scalar_bits P P2 P3 (i + 2) H3)))
      else Some H)"
  by pat_completeness auto
termination
  by (relation "measure (\<lambda>(scalar, scalar_bits, P, P2, P3, i, H). scalar_bits - 1 - i)") auto

declare mul_loop.simps [simp del]

definition general_mul :: "PointGFp \<Rightarrow> int \<Rightarrow> PointGFp option" where
  "general_mul P0 scalar =
     (let H = PointGFp_zero (curve P0);
          P = (if scalar < 0 then negate P0 else P0);
          scalar_bits = bits scalar
      in case small_mul P 2 of
           None \<Rightarrow> None
         | Some P2 \<Rightarrow>
             (case add P2 P of
                None \<Rightarrow> None
              | Some P3 \<Rightarrow>
                  (case mul_loop scalar scalar_bits P P2 P3 0 H of
                     None \<Rightarrow> None
                   | Some H' \<Rightarrow>
                       if scalar_bits mod 2 \<noteq> 0 then
                         (case mult2 H' of
                            None \<Rightarrow> None
                          | Some H'' \<Rightarrow> if get_bit scalar 0 then add H'' P else Some H'')
                       else Some H')))"

definition op_mul :: "PointGFp \<Rightarrow> int \<Rightarrow> PointGFp option" where
  "op_mul P scalar = (if \<bar>scalar\<bar> \<le> 2 then small_mul P scalar else general_mul P scalar)"

subsection \<open>Affine coordinates, the invariant check, equality\<close>

definition get_affine_x :: "PointGFp \<Rightarrow> error + int" where
  "get_affine_x P =
     (if is_zero P then Inl Illegal_Transformation
      else
        let c = curve P;
            x = multiply c (get_r_inv c) (coord_x P);
            z = multiply c (get_r_inv c) (coord_z P);
            z2 = square c z
        in Inr (multiply c x (inverse_mod z2 (get_p c))))"

definition get_affine_y :: "PointGFp \<Rightarrow> error + int" where
  "get_affine_y P =
     (if is_zero P then Inl Illegal_Transformation
      else
        let c = curve P;
            y = multiply c (get_r_inv c) (coord_y P);
            z = multiply c (get_r_inv c) (coord_z P);
            z3 = cube c z
        in Inr (multiply c y (inverse_mod z3 (get_p c))))"

definition check_invariants :: "PointGFp \<Rightarrow> error + unit" where
  "check_invariants P =
     (if is_zero P then Inr ()
      else
        let c = curve P;
            x = multiply c (get_r_inv c) (coord_x P);
            y = multiply c (get_r_inv c) (coord_y P);
            z = multiply c (get_r_inv c) (coord_z P);
            y2 = square c y;
            x3 = cube c x;
            ax = multiply c x (get_a c)
        in if z = 1 \<and> reduce c (x3 + ax + get_b c) \<noteq> y2 then Inl Illegal_Point
           else
             let z2 = square c z;
                 z3 = multiply c z z2;
                 ax_z4 = multiply c (multiply c z3 z) ax;
                 b_z6 = multiply c (get_b c) (square c z3)
             in if y2 \<noteq> reduce c (x3 + ax_z4 + b_z6) then Inl Illegal_Point else Inr ())"

text \<open>
  \<^verbatim>\<open>PointGFp::operator==\<close>. The right operand of \<^verbatim>\<open>&&\<close> is evaluated only when the
  \<open>x\<close> coordinates agree.
\<close>

definition op_eq :: "PointGFp \<Rightarrow> PointGFp \<Rightarrow> error + bool" where
  "op_eq P other =
     (if \<not> curve_eq (curve P) (curve other) then Inr False
      else if is_zero P then Inr (is_zero other)
      else
        case get_affine_x P of
          Inl e \<Rightarrow> Inl e
        | Inr x1 \<Rightarrow>
            (case get_affine_x other of
               Inl e \<Rightarrow> Inl e
             | Inr x2 \<Rightarrow>
                 if x1 = x2 then
                   (case get_affine_y P of
                      Inl e \<Rightarrow> Inl e
                    | Inr y1 \<Rightarrow>
                        (case get_affine_y other of
                           Inl e \<Rightarrow> Inl e
                         | Inr y2 \<Rightarrow> Inr (y1 = y2)))
                 else Inr False))"

subsection \<open>Encoding and decoding\<close>

text \<open>
  Modelled from the spec: the formats (the enumeration of the class, in the header). The
  \<^verbatim>\<open>format\<close> byte of \<^verbatim>\<open>EC2OSP\<close> is compared with the three constants \<open>UNCOMPRESSED\<close>,
  \<open>COMPRESSED\<close> and \<open>HYBRID\<close>; \<open>UNKNOWN_FORMAT\<close> stands for every other value of the
  byte.
\<close>

datatype Compression_Type = UNCOMPRESSED | COMPRESSED | HYBRID | UNKNOWN_FORMAT

definition EC2OSP :: "PointGFp \<Rightarrow> Compression_Type \<Rightarrow> error + byte list" where
  "EC2OSP point format =
     (if is_zero point then Inr [0]
      else
        let p_bytes = bytes (get_p (curve point)) in
        case get_affine_x point of
          Inl e \<Rightarrow> Inl e
        | Inr x \<Rightarrow>
            (case get_affine_y point of
               Inl e \<Rightarrow> Inl e
             | Inr y \<Rightarrow>
                 (case encode_1363 x p_bytes of
                    Inl e \<Rightarrow> Inl e
                  | Inr bX \<Rightarrow>
                      (case encode_1363 y p_bytes of
                         Inl e \<Rightarrow> Inl e
                       | Inr bY \<Rightarrow>
                           if format = UNCOMPRESSED then Inr (4 # bX @ bY)
                           else if format = COMPRESSED then
                             Inr ((if get_bit y 0 then 2 OR 1 else 2) # bX)
                           else if format = HYBRID then
                             Inr ((if get_bit y 0 then 6 OR 1 else 6) # bX @ bY)
                           else Inl Invalid_Argument))))"

definition decompress_point :: "bool \<Rightarrow> int \<Rightarrow> CurveGFp \<Rightarrow> error + int" where
  "decompress_point yMod2 x c =
     (let xpow3 = x * x * x;
          g = (get_a c * x + xpow3 + get_b c) mod get_p c;
          z = ressol g (get_p c)
      in if z < 0 then Inl Illegal_Point
         else Inr (if get_bit z 0 \<noteq> yMod2 then get_p c - z else z))"

text \<open>The last three statements of \<^verbatim>\<open>OS2ECP\<close>: construct, check, return.\<close>

definition checked_point :: "CurveGFp \<Rightarrow> int \<Rightarrow> int \<Rightarrow> error + PointGFp" where
  "checked_point c x y =
     (let result = PointGFp_xy c x y
      in case check_invariants result of Inl e \<Rightarrow> Inl e | Inr u \<Rightarrow> Inr result)"

definition OS2ECP :: "byte list \<Rightarrow> CurveGFp \<Rightarrow> error + PointGFp" where
  "OS2ECP data c =
     (let data_len = length data in
      if data_len \<le> 1 then Inr (PointGFp_zero c)
      else
        let pc = data ! 0 in
        if pc = 2 \<or> pc = 3 then
          (let x = decode (take (data_len - 1) (drop 1 data));
               yMod2 = (pc AND 1 = 1)
           in case decompress_point yMod2 x c of
                Inl e \<Rightarrow> Inl e
              | Inr y \<Rightarrow> checked_point c x y)
        else if pc = 4 then
          (let l = (data_len - 1) div 2;
               x = decode (take l (drop 1 data));
               y = decode (take l (drop (l + 1) data))
           in checked_point c x y)
        else if pc = 6 \<or> pc = 7 then
          (let l = (data_len - 1) div 2;
               x = decode (take l (drop 1 data));
               y = decode (take l (drop (l + 1) data));
               yMod2 = (pc AND 1 = 1)
           in case decompress_point yMod2 x c of
                Inl e \<Rightarrow> Inl e
              | Inr y' \<Rightarrow> if y' \<noteq> y then Inl Illegal_Point else checked_point c x y)
        else Inl Invalid_Argument)"

subsection \<open>Curves and points the properties speak about\<close>

text \<open>A prime modulus.\<close>

definition is_prime :: "int \<Rightarrow> bool" where
  "is_prime p \<longleftrightarrow> 1 < p \<and> (\<forall>d \<in> {2..<p}. \<not> d dvd p)"

text \<open>
  The part of the curve's construction that the properties rest on: the modulus is
  prime and \<open>R\<^sup>-\<^sup>1\<close> is the inverse of \<open>R\<close> modulo \<open>p\<close>.
\<close>

definition valid_curve :: "CurveGFp \<Rightarrow> bool" where
  "valid_curve c \<longleftrightarrow> is_prime (get_p c) \<and> (get_r c * get_r_inv c) mod get_p c = 1"

text \<open>
  A valid point: its coordinates are residues modulo \<open>p\<close> and it passes the invariant
  check.
\<close>

definition valid_point :: "PointGFp \<Rightarrow> bool" where
  "valid_point P \<longleftrightarrow>
     0 \<le> coord_x P \<and> coord_x P < get_p (curve P) \<and>
     0 \<le> coord_y P \<and> coord_y P < get_p (curve P) \<and>
     0 \<le> coord_z P \<and> coord_z P < get_p (curve P) \<and>
     check_invariants P = Inr ()"

text \<open>
  The affine curve equation \<open>y\<^sup>2 \<equiv> x\<^sup>3 + a\<cdot>x + b (mod p)\<close>, and the existence of a square
  root of its right-hand side among the residues modulo \<open>p\<close>.
\<close>

definition on_curve :: "CurveGFp \<Rightarrow> int \<Rightarrow> int \<Rightarrow> bool" where
  "on_curve c x y \<longleftrightarrow> y ^ 2 mod get_p c = (x ^ 3 + get_a c * x + get_b c) mod get_p c"

definition has_sqrt :: "CurveGFp \<Rightarrow> int \<Rightarrow> bool" where
  "has_sqrt c x \<longleftrightarrow> (\<exists>z \<in> set [0..get_p c - 1]. on_curve c x z)"

text \<open>
  The toy curve of the spec's concrete scenario: \<open>p = 23\<close>, \<open>a = 1\<close>, \<open>b = 1\<close>, one 32-bit
  word, so \<open>R = 2\<^sup>3\<^sup>2\<close>, \<open>R\<^sup>-\<^sup>1 = 2\<close>, \<open>a\<cdot>R mod p = 12\<close> and \<open>p' = (R\<cdot>R\<^sup>-\<^sup>1 - 1) / p\<close>.
\<close>

definition toy_curve :: CurveGFp where
  "toy_curve =
     \<lparr>get_p = 23, get_a = 1, get_b = 1, get_r = 4294967296, get_r_inv = 2,
      get_a_r = 12, get_p_dash = 373475417, get_p_words = 1\<rparr>"

section \<open>Properties\<close>

subsection \<open>Arithmetic of the reducer\<close>

lemma mod_sum3: "(a mod p + b mod p + c) mod p = (a + b + c) mod (p::int)"
  by (rule mod_add_cong) (rule mod_add_eq, rule refl)

lemma square_pow: "square c y = y ^ 2 mod get_p c"
  by (simp add: square_def reduce_def power2_eq_square)

lemma cube_pow: "cube c x = x ^ 3 mod get_p c"
  by (simp add: cube_def multiply_def square_def reduce_def power3_eq_cube mod_simps mult.assoc)

lemma homogeneous_rhs:
  "reduce c (cube c x + multiply c (multiply c (multiply c z (square c z)) z) (multiply c x a)
             + multiply c b (square c (multiply c z (square c z))))
   = (x ^ 3 + a * x * z ^ 4 + b * z ^ 6) mod get_p c"
proof -
  have "reduce c (cube c x + multiply c (multiply c (multiply c z (square c z)) z) (multiply c x a)
             + multiply c b (square c (multiply c z (square c z))))
    = (x * (x * x) + z * (z * z) * z * (x * a) + b * (z * (z * z) * (z * (z * z)))) mod get_p c"
    by (simp add: cube_def multiply_def square_def reduce_def mod_simps mod_sum3)
  also have "x * (x * x) + z * (z * z) * z * (x * a) + b * (z * (z * z) * (z * (z * z)))
     = x ^ 3 + a * x * z ^ 4 + b * z ^ 6"
    by (simp add: eval_nat_numeral algebra_simps)
  finally show ?thesis .
qed

lemma affine_rhs:
  "reduce c (cube c x + multiply c x a + b) = (x ^ 3 + a * x + b) mod get_p c"
  by (simp add: cube_def multiply_def square_def reduce_def mod_simps mod_sum3 power3_eq_cube mult.assoc mult.commute)


lemma check_invariants_cases:
  assumes "\<not> is_zero P"
  defines "c \<equiv> curve P"
  defines "x \<equiv> (get_r_inv c * coord_x P) mod get_p c"
  defines "y \<equiv> (get_r_inv c * coord_y P) mod get_p c"
  defines "z \<equiv> (get_r_inv c * coord_z P) mod get_p c"
  shows "check_invariants P =
    (if z = 1 \<and> (x ^ 3 + get_a c * x + get_b c) mod get_p c \<noteq> y ^ 2 mod get_p c
     then Inl Illegal_Point
     else if y ^ 2 mod get_p c \<noteq> (x ^ 3 + get_a c * x * z ^ 4 + get_b c * z ^ 6) mod get_p c
          then Inl Illegal_Point else Inr ())"
proof -
  have "check_invariants P =
    (if z = 1 \<and> (x ^ 3 + get_a c * x + get_b c) mod get_p c \<noteq> square c y
     then Inl Illegal_Point
     else if square c y \<noteq> (x ^ 3 + get_a c * x * z ^ 4 + get_b c * z ^ 6) mod get_p c
          then Inl Illegal_Point else Inr ())"
    using assms(1)
    by (simp add: check_invariants_def Let_def homogeneous_rhs affine_rhs
        c_def x_def y_def z_def multiply_def [of _ "get_r_inv _"] reduce_def [of _ "get_r_inv _ * _"])
  then show ?thesis
    by (simp only: square_pow)
qed

lemma check_invariants_finite:
  assumes "\<not> is_zero P"
  defines "c \<equiv> curve P"
  defines "x \<equiv> (get_r_inv c * coord_x P) mod get_p c"
  defines "y \<equiv> (get_r_inv c * coord_y P) mod get_p c"
  defines "z \<equiv> (get_r_inv c * coord_z P) mod get_p c"
  shows "check_invariants P =
    (if y ^ 2 mod get_p c = (x ^ 3 + get_a c * x * z ^ 4 + get_b c * z ^ 6) mod get_p c
     then Inr () else Inl Illegal_Point)"
proof -
  have one: "z = 1 \<Longrightarrow> x ^ 3 + get_a c * x * z ^ 4 + get_b c * z ^ 6 = x ^ 3 + get_a c * x + get_b c"
    by simp
  show ?thesis
    unfolding check_invariants_cases [OF assms(1)] c_def [symmetric] x_def [symmetric]
      y_def [symmetric] z_def [symmetric]
    using one by auto
qed

subsection \<open>The invariant check\<close>

text \<open>
  Claim C2: \<open>check_invariants\<close> does nothing for the point at infinity; for a finite point
  it takes the three coordinates out of the Montgomery domain (times \<open>R\<^sup>-\<^sup>1\<close> modulo \<open>p\<close>)
  and fails with \<open>Illegal_Point\<close> exactly when
  \<open>y\<^sup>2 \<equiv> x\<^sup>3 + a\<cdot>x\<cdot>z\<^sup>4 + b\<cdot>z\<^sup>6 (mod p)\<close> does not hold.
\<close>

theorem check_invariants_homogeneous:
  "check_invariants P =
     (if is_zero P then Inr ()
      else
        let c = curve P; p = get_p c;
            x = (get_r_inv c * coord_x P) mod p;
            y = (get_r_inv c * coord_y P) mod p;
            z = (get_r_inv c * coord_z P) mod p
        in if y ^ 2 mod p = (x ^ 3 + get_a c * x * z ^ 4 + get_b c * z ^ 6) mod p
           then Inr () else Inl Illegal_Point)"
proof (cases "is_zero P")
  case True
  then show ?thesis by (simp add: check_invariants_def)
next
  case False
  then show ?thesis
    by (simp add: check_invariants_finite Let_def)
qed

text \<open>
  Claim C3 says that the check validates only the affine equation, and only when \<open>z = 1\<close>,
  and does not validate the projective equation of a finite point with \<open>z \<noteq> 1\<close>. The
  source has no \<^verbatim>\<open>return\<close> after the affine test, so the projective test runs for every
  finite point: here a point of the toy curve with \<open>z = 10\<close> that is off the curve is
  rejected.
\<close>

theorem check_invariants_not_affine_only:
  "\<not> is_zero \<lparr>curve = toy_curve, coord_x = 1, coord_y = 2, coord_z = 5\<rparr>
   \<and> multiply toy_curve (get_r_inv toy_curve) 5 \<noteq> 1
   \<and> check_invariants \<lparr>curve = toy_curve, coord_x = 1, coord_y = 2, coord_z = 5\<rparr>
       = Inl Illegal_Point"
  by (simp add: is_zero_def check_invariants_def toy_curve_def multiply_def reduce_def square_def cube_def)

text \<open>
  Claim C3, amended: for a finite point the check rejects when \<open>z = 1\<close> and the affine
  equation \<open>y\<^sup>2 \<equiv> x\<^sup>3 + a\<cdot>x + b\<close> fails, and in every case, whatever \<open>z\<close> is, it rejects
  exactly when the projective equation fails.
\<close>

theorem check_invariants_both_equations:
  assumes "\<not> is_zero P"
  shows "(let c = curve P; p = get_p c;
            x = (get_r_inv c * coord_x P) mod p;
            y = (get_r_inv c * coord_y P) mod p;
            z = (get_r_inv c * coord_z P) mod p
        in (z = 1 \<and> y ^ 2 mod p \<noteq> (x ^ 3 + get_a c * x + get_b c) mod p
              \<longrightarrow> check_invariants P = Inl Illegal_Point)
         \<and> (check_invariants P = Inl Illegal_Point
              \<longleftrightarrow> y ^ 2 mod p \<noteq> (x ^ 3 + get_a c * x * z ^ 4 + get_b c * z ^ 6) mod p))"
  using assms by (simp add: check_invariants_finite Let_def)

theorem check_invariants_both_equations_witness:
  "\<not> is_zero \<lparr>curve = toy_curve, coord_x = 1, coord_y = 2, coord_z = 5\<rparr>
   \<and> (get_r_inv toy_curve * 5) mod get_p toy_curve = 10
   \<and> (2 * 2) ^ 2 mod 23 \<noteq> ((2::int) ^ 3 + 1 * 2 * 10 ^ 4 + 1 * 10 ^ 6) mod 23
   \<and> check_invariants \<lparr>curve = toy_curve, coord_x = 1, coord_y = 2, coord_z = 5\<rparr>
       = Inl Illegal_Point"
  using check_invariants_both_equations [of "\<lparr>curve = toy_curve, coord_x = 1, coord_y = 2, coord_z = 5\<rparr>"]
  by (simp add: is_zero_def toy_curve_def)

subsection \<open>Equality\<close>

text \<open>
  What the operator does in each case: the answer is an error only when the left point is
  finite and the right one is the point at infinity of an equal curve.
\<close>

lemma op_eq_cases:
  "op_eq P Q =
     (if \<not> curve_eq (curve P) (curve Q) then Inr False
      else if is_zero P then Inr (is_zero Q)
      else if is_zero Q then Inl Illegal_Transformation
      else Inr (get_affine_x P = get_affine_x Q \<and> get_affine_y P = get_affine_y Q))"
  by (simp add: op_eq_def get_affine_x_def get_affine_y_def Let_def)

text \<open>
  Claim C1 at a finite point and the point at infinity of the same curve: with infinity
  on the left the operator answers \<open>False\<close>; with the finite point on the left it reaches
  \<^verbatim>\<open>other.get_affine_x()\<close> and throws \<open>Illegal_Transformation\<close>.
\<close>

theorem op_eq_finite_zero:
  "op_eq (PointGFp_xy toy_curve 3 10) (PointGFp_zero toy_curve) = Inl Illegal_Transformation
   \<and> op_eq (PointGFp_zero toy_curve) (PointGFp_xy toy_curve 3 10) = Inr False
   \<and> curve_eq (curve (PointGFp_xy toy_curve 3 10)) (curve (PointGFp_zero toy_curve))
   \<and> \<not> is_zero (PointGFp_xy toy_curve 3 10) \<and> is_zero (PointGFp_zero toy_curve)"
  by code_simp


subsection \<open>Doubling and addition\<close>

lemma add_while_negative_returns:
  "0 < p \<Longrightarrow> \<exists>S'. add_while_negative p S = Some S'"
proof (induction p S rule: add_while_negative.induct)
  case (1 p S)
  show ?case
  proof (cases "S < 0")
    case True
    with 1 show ?thesis by (subst add_while_negative.simps) simp
  next
    case False
    then show ?thesis by (subst add_while_negative.simps) simp
  qed
qed

lemma mult2_returns:
  assumes "0 < get_p (curve P)"
  shows "\<exists>D. mult2 P = Some D"
proof -
  obtain S' where "add_while_negative (get_p (curve P))
      (reduce (curve P) (4 * monty_mult (curve P) (coord_x P) (monty_sqr (curve P) (coord_y P)))
       - reduce (curve P) (monty_sqr (curve P) (reduce (curve P) (monty_mult (curve P) (get_a_r (curve P))
             (monty_sqr (curve P) (monty_sqr (curve P) (coord_z P))) + 3 * monty_sqr (curve P) (coord_x P)))
           - 2 * reduce (curve P) (4 * monty_mult (curve P) (coord_x P) (monty_sqr (curve P) (coord_y P)))))
     = Some S'"
    using add_while_negative_returns [OF assms] by blast
  then show ?thesis
    by (simp add: mult2_def Let_def)
qed

lemma op_eq_refl: "op_eq D D = Inr True"
  by (simp add: op_eq_def curve_eq_def get_affine_x_def get_affine_y_def Let_def)

lemma add_self: "add P P = mult2 P"
  by (simp add: add_def mult2_def reduce_def Let_def)

lemma add_delegates:
  "\<not> is_zero P \<Longrightarrow> \<not> is_zero Q \<Longrightarrow> add_H P Q = 0 \<Longrightarrow> add_r P Q = 0 \<Longrightarrow> add P Q = mult2 P"
  by (simp add: add_def add_H_def add_r_def Let_def)

text \<open>
  Claim C7: doubling a point gives the same point as adding it to itself: \<open>add\<close> on \<open>P\<close>
  and \<open>P\<close> is \<open>mult2\<close> on \<open>P\<close>; on a curve with a positive modulus both return, with the
  same coordinates, and \<open>==\<close> holds between the results. And whenever \<open>add\<close> meets two
  finite points with \<open>H = 0\<close> and \<open>r = 0\<close> it returns what \<open>mult2\<close> returns.
\<close>

theorem mult2_is_add_self:
  "add P P = mult2 P
   \<and> (0 < get_p (curve P) \<longrightarrow>
        (\<exists>D S. mult2 P = Some D \<and> add P P = Some S \<and> S = D \<and> op_eq D S = Inr True))
   \<and> (\<forall>Q. \<not> is_zero P \<and> \<not> is_zero Q \<and> add_H P Q = 0 \<and> add_r P Q = 0
          \<longrightarrow> add P Q = mult2 P)"
proof (intro conjI impI allI)
  show "add P P = mult2 P"
    by (rule add_self)
next
  assume "0 < get_p (curve P)"
  from mult2_returns [OF this] obtain D where "mult2 P = Some D" ..
  then show "\<exists>D S. mult2 P = Some D \<and> add P P = Some S \<and> S = D \<and> op_eq D S = Inr True"
    by (simp add: add_self op_eq_refl)
next
  fix Q
  assume "\<not> is_zero P \<and> \<not> is_zero Q \<and> add_H P Q = 0 \<and> add_r P Q = 0"
  then show "add P Q = mult2 P"
    by (simp add: add_delegates)
qed

theorem mult2_is_add_self_witness:
  "(0::int) < get_p (curve (PointGFp_xy toy_curve 3 10))
   \<and> (\<exists>D. mult2 (PointGFp_xy toy_curve 3 10) = Some D
          \<and> add (PointGFp_xy toy_curve 3 10) (PointGFp_xy toy_curve 3 10) = Some D
          \<and> op_eq D D = Inr True)"
proof -
  have h: "0 < get_p (curve (PointGFp_xy toy_curve 3 10))"
    by (simp add: PointGFp_xy_def toy_curve_def)
  from mult2_is_add_self [of "PointGFp_xy toy_curve 3 10"] h show ?thesis by blast
qed

subsection \<open>Scalar multiplication: the small scalars\<close>

text \<open>
  Claim C8: for a scalar \<open>k\<close> with \<open>\<bar>k\<bar> \<le> 2\<close> the operator returns the result of the
  small-value block, which never calls the window loop: infinity for 0, the point for 1,
  its negation for \<open>-1\<close>, its doubling for 2 and the negated doubling for \<open>-2\<close>; on a curve
  with a positive modulus the doubling returns.
\<close>

theorem op_mul_small_values:
  "op_mul P 0 = Some (PointGFp_zero (curve P))
   \<and> op_mul P 1 = Some P
   \<and> op_mul P (- 1) = Some (negate P)
   \<and> op_mul P 2 = mult2 P
   \<and> op_mul P (- 2) = map_option negate (mult2 P)
   \<and> (\<forall>k. \<bar>k\<bar> \<le> 2 \<longrightarrow> op_mul P k = small_mul P k)
   \<and> (0 < get_p (curve P) \<longrightarrow>
        (\<exists>D. mult2 P = Some D \<and> op_mul P 2 = Some D \<and> op_mul P (- 2) = Some (negate D)))"
proof -
  have small: "op_mul P 0 = Some (PointGFp_zero (curve P))" "op_mul P 1 = Some P"
      "op_mul P (- 1) = Some (negate P)" "op_mul P 2 = mult2 P"
      "op_mul P (- 2) = map_option negate (mult2 P)"
    by (simp_all add: op_mul_def small_mul_def split: option.split)
  have "\<exists>D. mult2 P = Some D \<and> op_mul P 2 = Some D \<and> op_mul P (- 2) = Some (negate D)"
    if "0 < get_p (curve P)"
  proof -
    from mult2_returns [OF that] obtain D where "mult2 P = Some D" ..
    with small(4,5) show ?thesis by simp
  qed
  with small show ?thesis
    by (simp add: op_mul_def)
qed

theorem op_mul_small_values_witness:
  "(0::int) < get_p (curve (PointGFp_xy toy_curve 3 10))
   \<and> op_mul (PointGFp_xy toy_curve 3 10) 0 = Some (PointGFp_zero toy_curve)
   \<and> op_mul (PointGFp_xy toy_curve 3 10) 1 = Some (PointGFp_xy toy_curve 3 10)
   \<and> op_mul (PointGFp_xy toy_curve 3 10) (- 1) = Some (negate (PointGFp_xy toy_curve 3 10))
   \<and> (\<exists>D. mult2 (PointGFp_xy toy_curve 3 10) = Some D
          \<and> op_mul (PointGFp_xy toy_curve 3 10) 2 = Some D
          \<and> op_mul (PointGFp_xy toy_curve 3 10) (- 2) = Some (negate D))"
proof -
  have h: "0 < get_p (curve (PointGFp_xy toy_curve 3 10))"
    by (simp add: PointGFp_xy_def toy_curve_def)
  have c: "curve (PointGFp_xy toy_curve 3 10) = toy_curve"
    by (simp add: PointGFp_xy_def)
  from op_mul_small_values [of "PointGFp_xy toy_curve 3 10"] h show ?thesis
    unfolding c by blast
qed

subsection \<open>Infinity is the identity of addition\<close>

text \<open>
  Claim C9: for a point \<open>P\<close> and the point at infinity of its curve, \<open>P + infinity\<close> and
  \<open>infinity + P\<close> both return a point equal to \<open>P\<close>.
\<close>

theorem add_infinity_identity:
  assumes "curve P = c"
  shows "(\<exists>S. add P (PointGFp_zero c) = Some S \<and> op_eq S P = Inr True)
       \<and> (\<exists>S. add (PointGFp_zero c) P = Some S \<and> op_eq S P = Inr True)"
proof -
  have "\<exists>S. add P (PointGFp_zero c) = Some S \<and> op_eq S P = Inr True"
  proof (cases "is_zero P")
    case True
    then show ?thesis
      by (simp add: add_def op_eq_def curve_eq_def is_zero_def PointGFp_zero_def)
  next
    case False
    then show ?thesis
      by (simp add: add_def op_eq_refl) (simp add: is_zero_def PointGFp_zero_def)
  qed
  moreover have "add (PointGFp_zero c) P = Some P"
    using assms by (simp add: add_def is_zero_def PointGFp_zero_def)
  ultimately show ?thesis
    by (simp add: op_eq_refl)
qed

theorem add_infinity_identity_witness:
  "curve (PointGFp_xy toy_curve 3 10) = toy_curve
   \<and> (\<exists>S. add (PointGFp_xy toy_curve 3 10) (PointGFp_zero toy_curve) = Some S
          \<and> op_eq S (PointGFp_xy toy_curve 3 10) = Inr True)
   \<and> (\<exists>S. add (PointGFp_zero toy_curve) (PointGFp_xy toy_curve 3 10) = Some S
          \<and> op_eq S (PointGFp_xy toy_curve 3 10) = Inr True)"
proof -
  have c: "curve (PointGFp_xy toy_curve 3 10) = toy_curve"
    by (simp add: PointGFp_xy_def)
  from add_infinity_identity [OF c] c show ?thesis by blast
qed


subsection \<open>The constructor from affine coordinates\<close>

lemma valid_curve_gt1: "valid_curve c \<Longrightarrow> 1 < get_p c"
  by (simp add: valid_curve_def is_prime_def)

lemma valid_curve_r: "valid_curve c \<Longrightarrow> (get_r c * get_r_inv c) mod get_p c = 1"
  by (simp add: valid_curve_def)

lemma r_residue_nonzero:
  assumes "valid_curve c"
  shows "reduce c (get_r c) \<noteq> 0"
proof
  assume "reduce c (get_r c) = 0"
  then have "get_p c dvd get_r c"
    by (simp add: reduce_def mod_eq_0_iff_dvd)
  then have "(get_r c * get_r_inv c) mod get_p c = 0"
    by (simp add: mod_eq_0_iff_dvd)
  with valid_curve_r [OF assms] show False by simp
qed

lemma demontgomery_lifted:
  assumes "valid_curve c"
  shows "(get_r_inv c * multiply c (get_r c) x) mod get_p c = x mod get_p c"
proof -
  have "(get_r_inv c * multiply c (get_r c) x) mod get_p c
      = (get_r_inv c * (get_r c * x)) mod get_p c"
    by (simp add: multiply_def reduce_def mod_mult_right_eq)
  also have "\<dots> = ((get_r c * get_r_inv c) * x) mod get_p c"
    by (simp add: mult.assoc mult.left_commute mult.commute)
  also have "\<dots> = ((get_r c * get_r_inv c) mod get_p c * x) mod get_p c"
    by (simp only: mod_mult_left_eq)
  also have "\<dots> = x mod get_p c"
    by (simp add: valid_curve_r [OF assms])
  finally show ?thesis .
qed

lemma demontgomery_one:
  assumes "valid_curve c"
  shows "(get_r_inv c * reduce c (get_r c)) mod get_p c = 1"
proof -
  have "(get_r_inv c * reduce c (get_r c)) mod get_p c = (get_r c * get_r_inv c) mod get_p c"
    by (simp add: reduce_def mod_mult_right_eq mult.commute)
  then show ?thesis
    by (simp add: valid_curve_r [OF assms])
qed

lemma PointGFp_xy_finite: "valid_curve c \<Longrightarrow> \<not> is_zero (PointGFp_xy c x y)"
  using r_residue_nonzero [of c] by (simp add: is_zero_def PointGFp_xy_def)

lemma affine_cong:
  "((x mod p) ^ 3 + a * (x mod p) + b) mod p = (x ^ 3 + a * x + b) mod (p::int)"
proof -
  have "((x mod p) ^ 3 + a * (x mod p) + b) mod p
      = (((x mod p) ^ 3) mod p + (a * (x mod p)) mod p + b) mod p"
    by (simp only: mod_sum3)
  also have "\<dots> = ((x ^ 3) mod p + (a * x) mod p + b) mod p"
    by (simp only: power_mod mod_mult_right_eq)
  also have "\<dots> = (x ^ 3 + a * x + b) mod p"
    by (simp only: mod_sum3)
  finally show ?thesis .
qed

lemma check_invariants_xy:
  assumes "valid_curve c"
  shows "check_invariants (PointGFp_xy c x y) =
     (if y ^ 2 mod get_p c = (x ^ 3 + get_a c * x + get_b c) mod get_p c
      then Inr () else Inl Illegal_Point)"
proof -
  have cx: "(get_r_inv c * coord_x (PointGFp_xy c x y)) mod get_p c = x mod get_p c"
    using demontgomery_lifted [OF assms] by (simp add: PointGFp_xy_def)
  have cy: "(get_r_inv c * coord_y (PointGFp_xy c x y)) mod get_p c = y mod get_p c"
    using demontgomery_lifted [OF assms] by (simp add: PointGFp_xy_def)
  have cz: "(get_r_inv c * coord_z (PointGFp_xy c x y)) mod get_p c = 1"
    using demontgomery_one [OF assms] by (simp add: PointGFp_xy_def)
  have cc: "curve (PointGFp_xy c x y) = c"
    by (simp add: PointGFp_xy_def)
  show ?thesis
    unfolding check_invariants_finite [OF PointGFp_xy_finite [OF assms]] cc cx cy cz
    by (simp add: affine_cong power_mod)
qed

lemma is_prime_23: "is_prime 23"
  unfolding is_prime_def by code_simp

lemma valid_toy_curve: "valid_curve toy_curve"
  by (simp add: valid_curve_def is_prime_23 toy_curve_def)

text \<open>
  Claim C10: the constructor from affine coordinates is total and validates nothing: for
  all integers \<open>x\<close> and \<open>y\<close> the point has the coordinates \<open>x\<cdot>R mod p\<close>, \<open>y\<cdot>R mod p\<close> and
  \<open>1\<cdot>R mod p\<close>. On a curve with a prime modulus and \<open>R\<cdot>R\<^sup>-\<^sup>1 \<equiv> 1\<close> it is finite, and it is
  \<open>check_invariants\<close> that rejects it, exactly when \<open>(x, y)\<close> is off the curve.
\<close>

theorem PointGFp_xy_unchecked:
  "(let P = PointGFp_xy c x y; p = get_p c
    in curve P = c
     \<and> coord_x P = (x * get_r c) mod p
     \<and> coord_y P = (y * get_r c) mod p
     \<and> coord_z P = (1 * get_r c) mod p
     \<and> (valid_curve c \<longrightarrow>
          \<not> is_zero P
        \<and> (check_invariants P = Inl Illegal_Point
             \<longleftrightarrow> y ^ 2 mod p \<noteq> (x ^ 3 + get_a c * x + get_b c) mod p)
        \<and> (check_invariants P = Inr ()
             \<longleftrightarrow> y ^ 2 mod p = (x ^ 3 + get_a c * x + get_b c) mod p)))"
proof -
  have "curve (PointGFp_xy c x y) = c"
      "coord_x (PointGFp_xy c x y) = (x * get_r c) mod get_p c"
      "coord_y (PointGFp_xy c x y) = (y * get_r c) mod get_p c"
      "coord_z (PointGFp_xy c x y) = (1 * get_r c) mod get_p c"
    by (simp_all add: PointGFp_xy_def multiply_def reduce_def mult.commute)
  moreover have "\<not> is_zero (PointGFp_xy c x y)
        \<and> (check_invariants (PointGFp_xy c x y) = Inl Illegal_Point
             \<longleftrightarrow> y ^ 2 mod get_p c \<noteq> (x ^ 3 + get_a c * x + get_b c) mod get_p c)
        \<and> (check_invariants (PointGFp_xy c x y) = Inr ()
             \<longleftrightarrow> y ^ 2 mod get_p c = (x ^ 3 + get_a c * x + get_b c) mod get_p c)"
    if "valid_curve c"
    using PointGFp_xy_finite [OF that, of x y] by (simp add: check_invariants_xy [OF that])
  ultimately show ?thesis
    by (simp only: Let_def) blast
qed

theorem PointGFp_xy_unchecked_witness:
  "valid_curve toy_curve
   \<and> PointGFp_xy toy_curve 26 (- 12) = \<lparr>curve = toy_curve, coord_x = 13, coord_y = 17, coord_z = 12\<rparr>
   \<and> \<not> is_zero (PointGFp_xy toy_curve 26 (- 12))
   \<and> check_invariants (PointGFp_xy toy_curve 26 (- 12)) = Inl Illegal_Point"
  using PointGFp_xy_unchecked [of toy_curve 26 "- 12"] valid_toy_curve
  by (simp add: Let_def) (simp add: PointGFp_xy_def toy_curve_def multiply_def reduce_def)


subsection \<open>Decoding\<close>

lemma find_Some_set: "List.find P xs = Some x \<Longrightarrow> P x \<and> x \<in> set xs"
  by (induction xs) (auto split: if_splits)

lemma decompress_g: "(get_a c * x + x * x * x + get_b c) mod get_p c mod get_p c
   = (x ^ 3 + get_a c * x + get_b c) mod get_p c"
  by (simp add: power3_eq_cube algebra_simps)

lemma ressol_negative_iff:
  "ressol ((get_a c * x + x * x * x + get_b c) mod get_p c) (get_p c) < 0 \<longleftrightarrow> \<not> has_sqrt c x"
proof (cases "List.find (\<lambda>z. (z * z) mod get_p c = (get_a c * x + x * x * x + get_b c) mod get_p c mod get_p c) [0..get_p c - 1]")
  case None
  then have "\<not> has_sqrt c x"
    unfolding find_None_iff has_sqrt_def on_curve_def decompress_g
    by (auto simp: power2_eq_square)
  with None show ?thesis
    by (simp add: ressol_def)
next
  case (Some z)
  from find_Some_set [OF Some] have "has_sqrt c x" "0 \<le> z"
    unfolding has_sqrt_def on_curve_def decompress_g
    by (auto simp: power2_eq_square)
  with Some show ?thesis
    by (simp add: ressol_def)
qed

lemma ressol_root:
  assumes "\<not> ressol ((get_a c * x + x * x * x + get_b c) mod get_p c) (get_p c) < 0"
  shows "0 \<le> ressol ((get_a c * x + x * x * x + get_b c) mod get_p c) (get_p c)
       \<and> ressol ((get_a c * x + x * x * x + get_b c) mod get_p c) (get_p c) < get_p c
       \<and> on_curve c x (ressol ((get_a c * x + x * x * x + get_b c) mod get_p c) (get_p c))"
proof (cases "List.find (\<lambda>z. (z * z) mod get_p c = (get_a c * x + x * x * x + get_b c) mod get_p c mod get_p c) [0..get_p c - 1]")
  case None
  with assms show ?thesis by (simp add: ressol_def)
next
  case (Some z)
  from find_Some_set [OF Some] have "on_curve c x z" "0 \<le> z" "z < get_p c"
    unfolding on_curve_def decompress_g
    by (auto simp: power2_eq_square)
  with Some show ?thesis
    by (simp add: ressol_def)
qed

lemma on_curve_mirror: "on_curve c x z \<Longrightarrow> on_curve c x (get_p c - z)"
proof -
  have "(get_p c - z) ^ 2 = z ^ 2 + get_p c * (get_p c - 2 * z)"
    by (simp add: power2_eq_square algebra_simps)
  then have "(get_p c - z) ^ 2 mod get_p c = z ^ 2 mod get_p c"
    by simp
  then show "on_curve c x z \<Longrightarrow> on_curve c x (get_p c - z)"
    by (simp add: on_curve_def)
qed

lemma decompress_point_cases:
  "decompress_point yMod2 x c =
     (if \<not> has_sqrt c x then Inl Illegal_Point
      else Inr (let z = ressol ((get_a c * x + x * x * x + get_b c) mod get_p c) (get_p c)
                in if get_bit z 0 \<noteq> yMod2 then get_p c - z else z))"
  using ressol_negative_iff [of c x]
  by (simp add: decompress_point_def Let_def)

lemma decompress_point_on_curve:
  assumes "decompress_point yMod2 x c = Inr y"
  shows "on_curve c x y"
proof -
  let ?z = "ressol ((get_a c * x + x * x * x + get_b c) mod get_p c) (get_p c)"
  from assms have nn: "\<not> ?z < 0"
    by (auto simp: decompress_point_def Let_def split: if_splits)
  from assms nn have "y = ?z \<or> y = get_p c - ?z"
    by (auto simp: decompress_point_def Let_def split: if_splits)
  with ressol_root [OF nn] on_curve_mirror [of c x ?z] show ?thesis
    by auto
qed

lemma decompress_point_error:
  "decompress_point yMod2 x c = Inl e \<Longrightarrow> e = Illegal_Point \<and> \<not> has_sqrt c x"
  by (simp add: decompress_point_cases split: if_splits)

lemma checked_point_cases:
  assumes "valid_curve c"
  shows "checked_point c x y = (if on_curve c x y then Inr (PointGFp_xy c x y) else Inl Illegal_Point)"
  by (simp add: checked_point_def Let_def check_invariants_xy [OF assms] on_curve_def)


lemma OS2ECP_short: "length data \<le> 1 \<Longrightarrow> OS2ECP data c = Inr (PointGFp_zero c)"
  by (simp add: OS2ECP_def)

lemma OS2ECP_compressed:
  assumes "1 < length data" "data ! 0 = 2 \<or> data ! 0 = 3"
  shows "OS2ECP data c =
     (case decompress_point (data ! 0 AND 1 = 1) (decode (drop 1 data)) c of
        Inl e \<Rightarrow> Inl e
      | Inr y \<Rightarrow> checked_point c (decode (drop 1 data)) y)"
  using assms by (auto simp: OS2ECP_def Let_def simp del: One_nat_def)

lemma OS2ECP_uncompressed:
  assumes "1 < length data" "data ! 0 = 4"
  shows "OS2ECP data c =
     checked_point c (decode (take ((length data - 1) div 2) (drop 1 data)))
       (decode (take ((length data - 1) div 2) (drop ((length data - 1) div 2 + 1) data)))"
  using assms by (simp add: OS2ECP_def Let_def)

lemma OS2ECP_hybrid:
  assumes "1 < length data" "data ! 0 = 6 \<or> data ! 0 = 7"
  shows "OS2ECP data c =
     (case decompress_point (data ! 0 AND 1 = 1)
             (decode (take ((length data - 1) div 2) (drop 1 data))) c of
        Inl e \<Rightarrow> Inl e
      | Inr y' \<Rightarrow>
          if y' \<noteq> decode (take ((length data - 1) div 2) (drop ((length data - 1) div 2 + 1) data))
          then Inl Illegal_Point
          else checked_point c (decode (take ((length data - 1) div 2) (drop 1 data)))
                 (decode (take ((length data - 1) div 2) (drop ((length data - 1) div 2 + 1) data))))"
  using assms by (auto simp: OS2ECP_def Let_def simp del: One_nat_def)

lemma OS2ECP_unknown:
  assumes "1 < length data" "data ! 0 \<notin> {2, 3, 4, 6, 7}"
  shows "OS2ECP data c = Inl Invalid_Argument"
  using assms by (simp add: OS2ECP_def Let_def)

lemma OS2ECP_compressed_result:
  assumes "valid_curve c" "1 < length data" "data ! 0 = 2 \<or> data ! 0 = 3"
  shows "OS2ECP data c =
     (if \<not> has_sqrt c (decode (drop 1 data)) then Inl Illegal_Point
      else Inr (PointGFp_xy c (decode (drop 1 data))
                 (let z = ressol ((get_a c * decode (drop 1 data)
                                   + decode (drop 1 data) * decode (drop 1 data) * decode (drop 1 data)
                                   + get_b c) mod get_p c) (get_p c)
                  in if get_bit z 0 \<noteq> (data ! 0 AND 1 = 1) then get_p c - z else z)))"
proof (cases "decompress_point (data ! 0 AND 1 = 1) (decode (drop 1 data)) c")
  case (Inl e)
  with decompress_point_error [OF Inl] show ?thesis
    by (simp add: OS2ECP_compressed [OF assms(2,3)])
next
  case (Inr y)
  from decompress_point_on_curve [OF Inr] Inr show ?thesis
    unfolding OS2ECP_compressed [OF assms(2,3)]
    by (simp add: checked_point_cases [OF assms(1)] decompress_point_cases split: if_splits)
qed

lemma OS2ECP_hybrid_result:
  assumes "valid_curve c" "1 < length data" "data ! 0 = 6 \<or> data ! 0 = 7"
  defines "l \<equiv> (length data - 1) div 2"
  defines "x \<equiv> decode (take l (drop 1 data))"
  defines "y \<equiv> decode (take l (drop (l + 1) data))"
  shows "OS2ECP data c =
     (if decompress_point (data ! 0 AND 1 = 1) x c = Inr y then Inr (PointGFp_xy c x y)
      else Inl Illegal_Point)"
proof (cases "decompress_point (data ! 0 AND 1 = 1) x c")
  case (Inl e)
  with decompress_point_error [OF Inl] show ?thesis
    unfolding OS2ECP_hybrid [OF assms(2,3)] l_def [symmetric] x_def [symmetric] y_def [symmetric]
    by simp
next
  case (Inr y')
  from decompress_point_on_curve [OF Inr] Inr show ?thesis
    unfolding OS2ECP_hybrid [OF assms(2,3)] l_def [symmetric] x_def [symmetric] y_def [symmetric]
    by (auto simp: checked_point_cases [OF assms(1)])
qed

lemma OS2ECP_errors_on_valid_curve:
  assumes "valid_curve c"
  shows "(length data \<le> 1 \<longrightarrow> OS2ECP data c = Inr (PointGFp_zero c))
       \<and> (1 < length data \<longrightarrow>
            (let pc = data ! 0; l = (length data - 1) div 2;
                 xc = decode (drop 1 data);
                 x = decode (take l (drop 1 data));
                 y = decode (take l (drop (l + 1) data))
             in (OS2ECP data c = Inl Invalid_Argument \<longleftrightarrow> pc \<notin> {2, 3, 4, 6, 7})
              \<and> (OS2ECP data c = Inl Illegal_Point \<longleftrightarrow>
                    (pc \<in> {2, 3} \<and> \<not> has_sqrt c xc)
                  \<or> (pc \<in> {6, 7} \<and> (\<not> has_sqrt c x \<or> decompress_point (pc AND 1 = 1) x c \<noteq> Inr y))
                  \<or> (pc \<in> {4, 6, 7} \<and> \<not> on_curve c x y))))"
proof (intro conjI impI)
  assume "length data \<le> 1"
  then show "OS2ECP data c = Inr (PointGFp_zero c)"
    by (rule OS2ECP_short)
next
  assume len: "1 < length data"
  define l where "l = (length data - 1) div 2"
  define x where "x = decode (take l (drop 1 data))"
  define y where "y = decode (take l (drop (l + 1) data))"
  consider (comp) "data ! 0 = 2 \<or> data ! 0 = 3" | (unc) "data ! 0 = 4"
    | (hyb) "data ! 0 = 6 \<or> data ! 0 = 7" | (other) "data ! 0 \<notin> {2, 3, 4, 6, 7}"
    by auto
  then have "(OS2ECP data c = Inl Invalid_Argument \<longleftrightarrow> data ! 0 \<notin> {2, 3, 4, 6, 7})
     \<and> (OS2ECP data c = Inl Illegal_Point \<longleftrightarrow>
           (data ! 0 \<in> {2, 3} \<and> \<not> has_sqrt c (decode (drop 1 data)))
         \<or> (data ! 0 \<in> {6, 7} \<and> (\<not> has_sqrt c x \<or> decompress_point (data ! 0 AND 1 = 1) x c \<noteq> Inr y))
         \<or> (data ! 0 \<in> {4, 6, 7} \<and> \<not> on_curve c x y))"
  proof cases
    case comp
    then show ?thesis
      by (auto simp: OS2ECP_compressed_result [OF assms len comp])
  next
    case unc
    then show ?thesis
      by (simp add: OS2ECP_uncompressed [OF len unc] checked_point_cases [OF assms]
          x_def y_def l_def)
  next
    case hyb
    have "decompress_point (data ! 0 AND 1 = 1) x c = Inr y \<Longrightarrow> has_sqrt c x \<and> on_curve c x y"
      using decompress_point_on_curve [of "data ! 0 AND 1 = 1" x c y]
      by (auto simp: decompress_point_cases split: if_splits)
    with hyb show ?thesis
      unfolding OS2ECP_hybrid_result [OF assms len hyb] x_def [symmetric] l_def [symmetric] y_def [symmetric]
      by auto
  next
    case other
    then show ?thesis
      by (simp add: OS2ECP_unknown [OF len other])
  qed
  then show "(let pc = data ! 0; l = (length data - 1) div 2;
                 xc = decode (drop 1 data);
                 x = decode (take l (drop 1 data));
                 y = decode (take l (drop (l + 1) data))
             in (OS2ECP data c = Inl Invalid_Argument \<longleftrightarrow> pc \<notin> {2, 3, 4, 6, 7})
              \<and> (OS2ECP data c = Inl Illegal_Point \<longleftrightarrow>
                    (pc \<in> {2, 3} \<and> \<not> has_sqrt c xc)
                  \<or> (pc \<in> {6, 7} \<and> (\<not> has_sqrt c x \<or> decompress_point (pc AND 1 = 1) x c \<noteq> Inr y))
                  \<or> (pc \<in> {4, 6, 7} \<and> \<not> on_curve c x y)))"
    by (simp only: Let_def x_def y_def l_def)
qed

lemma check_invariants_error: "check_invariants P = Inl e \<Longrightarrow> e = Illegal_Point"
  by (auto simp: check_invariants_def Let_def split: if_splits)

lemma checked_point_error: "checked_point c x y = Inl e \<Longrightarrow> e = Illegal_Point"
  using check_invariants_error [of "PointGFp_xy c x y" e]
  by (auto simp: checked_point_def Let_def split: sum.splits)

lemma OS2ECP_Invalid_Argument_iff:
  assumes "1 < length data"
  shows "OS2ECP data c = Inl Invalid_Argument \<longleftrightarrow> data ! 0 \<notin> {2, 3, 4, 6, 7}"
proof
  assume "data ! 0 \<notin> {2, 3, 4, 6, 7}"
  then show "OS2ECP data c = Inl Invalid_Argument"
    by (rule OS2ECP_unknown [OF assms])
next
  assume inv: "OS2ECP data c = Inl Invalid_Argument"
  show "data ! 0 \<notin> {2, 3, 4, 6, 7}"
  proof
    assume "data ! 0 \<in> {2, 3, 4, 6, 7}"
    then consider (comp) "data ! 0 = 2 \<or> data ! 0 = 3" | (unc) "data ! 0 = 4"
      | (hyb) "data ! 0 = 6 \<or> data ! 0 = 7"
      by auto
    then show False
    proof cases
      case comp
      from inv show False
        unfolding OS2ECP_compressed [OF assms comp]
        by (auto split: sum.splits dest: decompress_point_error checked_point_error)
    next
      case unc
      from inv show False
        unfolding OS2ECP_uncompressed [OF assms unc]
        by (auto dest: checked_point_error)
    next
      case hyb
      from inv show False
        unfolding OS2ECP_hybrid [OF assms hyb]
        by (auto split: sum.splits if_splits dest: decompress_point_error checked_point_error)
    qed
  qed
qed

text \<open>
  Claim C5: on at most one byte \<open>OS2ECP\<close> returns the point at infinity. On a longer input
  it fails with \<open>Invalid_Argument\<close> exactly when the first byte is none of 2, 3, 4, 6, 7,
  and with \<open>Illegal_Point\<close> exactly when the decompression (run for the compressed and
  the hybrid tags) finds no square root, or the \<open>y\<close> stored in a hybrid encoding differs
  from the decompressed one, or the point built from \<open>x\<close> and \<open>y\<close> is off the curve.
\<close>

theorem OS2ECP_errors:
  "(length data \<le> 1 \<longrightarrow> OS2ECP data c = Inr (PointGFp_zero c))
   \<and> (1 < length data \<longrightarrow>
        (OS2ECP data c = Inl Invalid_Argument \<longleftrightarrow> data ! 0 \<notin> {2, 3, 4, 6, 7}))
   \<and> (valid_curve c \<and> 1 < length data \<longrightarrow>
        (let pc = data ! 0; l = (length data - 1) div 2;
             xc = decode (drop 1 data);
             x = decode (take l (drop 1 data));
             y = decode (take l (drop (l + 1) data))
         in OS2ECP data c = Inl Illegal_Point \<longleftrightarrow>
                (pc \<in> {2, 3} \<and> \<not> has_sqrt c xc)
              \<or> (pc \<in> {6, 7} \<and> (\<not> has_sqrt c x \<or> decompress_point (pc AND 1 = 1) x c \<noteq> Inr y))
              \<or> (pc \<in> {4, 6, 7} \<and> \<not> on_curve c x y)))"
proof (intro conjI impI)
  assume "length data \<le> 1"
  then show "OS2ECP data c = Inr (PointGFp_zero c)"
    by (rule OS2ECP_short)
next
  assume "1 < length data"
  then show "OS2ECP data c = Inl Invalid_Argument \<longleftrightarrow> data ! 0 \<notin> {2, 3, 4, 6, 7}"
    by (rule OS2ECP_Invalid_Argument_iff)
next
  assume "valid_curve c \<and> 1 < length data"
  then have "valid_curve c" "1 < length data"
    by simp_all
  with OS2ECP_errors_on_valid_curve [of c data]
  show "(let pc = data ! 0; l = (length data - 1) div 2;
             xc = decode (drop 1 data);
             x = decode (take l (drop 1 data));
             y = decode (take l (drop (l + 1) data))
         in OS2ECP data c = Inl Illegal_Point \<longleftrightarrow>
                (pc \<in> {2, 3} \<and> \<not> has_sqrt c xc)
              \<or> (pc \<in> {6, 7} \<and> (\<not> has_sqrt c x \<or> decompress_point (pc AND 1 = 1) x c \<noteq> Inr y))
              \<or> (pc \<in> {4, 6, 7} \<and> \<not> on_curve c x y))"
    by (simp add: Let_def)
qed

theorem OS2ECP_errors_witness:
  "valid_curve toy_curve
   \<and> OS2ECP [0] toy_curve = Inr (PointGFp_zero toy_curve)
   \<and> OS2ECP [5, 3] toy_curve = Inl Invalid_Argument
   \<and> OS2ECP [2, 2] toy_curve = Inl Illegal_Point
   \<and> OS2ECP [4, 3, 11] toy_curve = Inl Illegal_Point
   \<and> OS2ECP [6, 3, 13] toy_curve = Inl Illegal_Point
   \<and> OS2ECP [4, 3, 10] toy_curve \<noteq> Inl Illegal_Point"
proof -
  note inst = OS2ECP_errors [of _ toy_curve]
  note v = valid_toy_curve
  have "OS2ECP [0] toy_curve = Inr (PointGFp_zero toy_curve)"
    using v inst [of "[0]"] by simp
  moreover have "OS2ECP [5, 3] toy_curve = Inl Invalid_Argument"
    using v inst [of "[5, 3]"] by (simp add: Let_def)
  moreover have "\<not> has_sqrt toy_curve (decode (drop 1 [2, 2]))"
    by code_simp
  then have "OS2ECP [2, 2] toy_curve = Inl Illegal_Point"
    using v inst [of "[2, 2]"] by (simp add: Let_def)
  moreover have "\<not> on_curve toy_curve (decode (take 1 (drop 1 [4, 3, 11]))) (decode (take 1 (drop 2 [4, 3, 11])))"
    by code_simp
  then have "OS2ECP [4, 3, 11] toy_curve = Inl Illegal_Point"
    using v inst [of "[4, 3, 11]"] by (simp add: Let_def)
  moreover have "decompress_point (6 AND 1 = (1::byte)) (decode (take 1 (drop 1 [6, 3, 13]))) toy_curve
      \<noteq> Inr (decode (take 1 (drop 2 [6, 3, 13])))"
    by code_simp
  then have "OS2ECP [6, 3, 13] toy_curve = Inl Illegal_Point"
    using v inst [of "[6, 3, 13]"] by (simp add: Let_def)
  moreover have "on_curve toy_curve (decode (take 1 (drop 1 [4, 3, 10]))) (decode (take 1 (drop 2 [4, 3, 10])))"
    by code_simp
  then have "OS2ECP [4, 3, 10] toy_curve \<noteq> Inl Illegal_Point"
    using v inst [of "[4, 3, 10]"] by (simp add: Let_def)
  ultimately show ?thesis
    using valid_toy_curve by simp
qed

text \<open>
  Claim C6 at the two-torsion point \<open>(4, 0)\<close> of the toy curve under the odd tag 3: the
  only root is 0, its parity differs from the tag's, so \<open>decompress_point\<close> returns
  \<open>p - 0 = p\<close>; the constructor reduces it to 0 and the check accepts the point. The decoded
  point has the even affine \<open>y = 0\<close> under an odd tag.
\<close>

theorem OS2ECP_odd_tag_even_y:
  "OS2ECP [3, 4] toy_curve = Inr \<lparr>curve = toy_curve, coord_x = 2, coord_y = 0, coord_z = 12\<rparr>
   \<and> get_affine_y \<lparr>curve = toy_curve, coord_x = 2, coord_y = 0, coord_z = 12\<rparr> = Inr 0
   \<and> \<not> get_bit 0 0
   \<and> (3 :: byte) AND 1 = 1"
  by code_simp


subsection \<open>Primes, inverses and the byte encoding\<close>

lemma is_prime_coprime:
  assumes "is_prime p" "\<not> p dvd a"
  shows "coprime p a"
proof (rule coprimeI)
  fix d assume d: "d dvd p" "d dvd a"
  from assms(1) have p: "1 < p" and nd: "\<And>e. 2 \<le> e \<Longrightarrow> e < p \<Longrightarrow> \<not> e dvd p"
    by (auto simp: is_prime_def)
  have e: "\<bar>d\<bar> dvd p" "\<bar>d\<bar> dvd a"
    using d by simp_all
  have "\<bar>d\<bar> \<le> p"
    using e(1) p by (intro zdvd_imp_le) simp_all
  moreover have "\<bar>d\<bar> \<noteq> 0"
    using d(1) p by auto
  moreover have "\<bar>d\<bar> \<noteq> p"
    using e(2) assms(2) by auto
  ultimately have "\<bar>d\<bar> = 1 \<or> (2 \<le> \<bar>d\<bar> \<and> \<bar>d\<bar> < p)"
    by linarith
  with nd e(1) have "\<bar>d\<bar> = 1"
    by blast
  then show "is_unit d"
    by simp
qed

lemma is_prime_dvd_mult:
  assumes "is_prime p" "p dvd a * b"
  shows "p dvd a \<or> p dvd b"
proof (cases "p dvd a")
  case False
  from is_prime_coprime [OF assms(1) False] assms(2) show ?thesis
    by (simp add: coprime_dvd_mult_right_iff)
qed simp

lemma is_prime_dvd_power:
  assumes "is_prime p" "p dvd a ^ n"
  shows "p dvd a"
  using assms(2)
proof (induction n)
  case 0
  with assms(1) show ?case by (auto simp: is_prime_def)
next
  case (Suc n)
  with is_prime_dvd_mult [OF assms(1), of a "a ^ n"] show ?case by auto
qed

lemma is_prime_odd:
  assumes "is_prime p" "p \<noteq> 2"
  shows "odd p"
proof
  assume "even p"
  moreover from assms have "2 < p"
    by (auto simp: is_prime_def)
  ultimately show False
    using assms(1) by (auto simp: is_prime_def)
qed

lemma inverse_mod_correct:
  assumes "is_prime p" "\<not> p dvd n"
  shows "(n * inverse_mod n p) mod p = 1"
proof -
  from assms(1) have p: "1 < p"
    by (simp add: is_prime_def)
  have "coprime n p"
    using is_prime_coprime [OF assms] by (simp add: coprime_commute)
  then obtain u v where uv: "u * n + v * p = 1"
    using bezout_int [of n p] by auto
  have "(n * u) mod p = (n * u + v * p) mod p"
    by simp
  also have "n * u + v * p = 1"
    using uv by (simp only: mult.commute)
  finally have "(n * u) mod p = 1 mod p" .
  with p have nu: "(n * u) mod p = 1"
    by simp
  have "(n * (u mod p)) mod p = 1"
    using nu by (simp add: mod_mult_right_eq)
  moreover have "u mod p \<in> set [0..p - 1]"
    using p by simp
  ultimately have "List.find (\<lambda>i. (n * i) mod p = 1) [0..p - 1] \<noteq> None"
    unfolding find_None_iff by blast
  then obtain i where i: "List.find (\<lambda>i. (n * i) mod p = 1) [0..p - 1] = Some i"
    by auto
  from find_Some_set [OF i] i show ?thesis
    by (simp add: inverse_mod_def)
qed

lemma inverse_mod_one:
  assumes "1 < p"
  shows "inverse_mod 1 p = 1"
proof -
  have "[0..p - 1] = 0 # 1 # [2..p - 1]"
    using assms by (simp add: upto_rec1)
  with assms show ?thesis
    by (simp add: inverse_mod_def)
qed

lemma bits_bound: "0 \<le> n \<Longrightarrow> n < 2 ^ bits n"
proof (induction n rule: bits.induct)
  case (1 n)
  show ?case
  proof (cases "n = 0")
    case True
    then show ?thesis by (simp add: bits.simps [of 0])
  next
    case False
    with 1 have "\<bar>n\<bar> div 2 < 2 ^ bits (\<bar>n\<bar> div 2)"
      by simp
    with 1(2) False have "n < 2 * 2 ^ bits (n div 2)"
      by simp
    with False show ?thesis
      using 1(2) by (subst bits.simps) simp
  qed
qed

lemma bits_mono: "0 \<le> a \<Longrightarrow> a \<le> b \<Longrightarrow> bits a \<le> bits b"
proof (induction a arbitrary: b rule: bits.induct)
  case (1 n)
  show ?case
  proof (cases "n = 0")
    case True
    then show ?thesis by (simp add: bits.simps [of 0])
  next
    case False
    with 1 have b: "b \<noteq> 0" "0 \<le> b" by auto
    from 1 False have "bits (\<bar>n\<bar> div 2) \<le> bits (\<bar>b\<bar> div 2)"
      by (intro 1(1)) (auto simp: zdiv_mono1)
    then show ?thesis
      using False b by (subst bits.simps, subst (2) bits.simps) simp
  qed
qed

lemma bytes_capacity:
  assumes "0 \<le> n"
  shows "n < 256 ^ bytes n"
proof -
  have "bits n \<le> 8 * bytes n"
    by (simp add: bytes_def)
  then have "(2::int) ^ bits n \<le> 2 ^ (8 * bytes n)"
    by (intro power_increasing) simp_all
  also have "\<dots> = 256 ^ bytes n"
    by (simp add: power_mult)
  finally show ?thesis
    using bits_bound [OF assms] by simp
qed

lemma bytes_mono: "0 \<le> a \<Longrightarrow> a \<le> b \<Longrightarrow> bytes a \<le> bytes b"
  using bits_mono [of a b] by (simp add: bytes_def div_le_mono)

lemma bytes_positive: "1 < p \<Longrightarrow> 1 \<le> bytes p"
  by (subst bytes_def, subst bits.simps) simp

lemma length_be_bytes: "length (be_bytes k n) = k"
  by (induction k arbitrary: n) simp_all

lemma decode_snoc: "decode (bs @ [b]) = decode bs * 256 + uint b"
  by (simp add: decode_def)

lemma decode_be_bytes: "0 \<le> n \<Longrightarrow> decode (be_bytes k n) = n mod 256 ^ k"
proof (induction k arbitrary: n)
  case 0
  then show ?case by (simp add: decode_def)
next
  case (Suc k)
  have "uint (word_of_int (n mod 256) :: byte) = n mod 256"
    by (simp add: uint_word_of_int take_bit_eq_mod)
  moreover have "decode (be_bytes k (n div 256)) = (n div 256) mod 256 ^ k"
    using Suc by (intro Suc.IH) simp
  ultimately have "decode (be_bytes (Suc k) n) = ((n div 256) mod 256 ^ k) * 256 + n mod 256"
    by (simp add: decode_snoc)
  also have "\<dots> = n mod 256 ^ Suc k"
    using zmod_zmult2_eq [of "256 ^ k" n 256] by simp
  finally show ?case .
qed

lemma encode_1363_residue:
  assumes "0 \<le> x" "x < p"
  shows "encode_1363 x (bytes p) = Inr (be_bytes (bytes p) x)"
    and "decode (be_bytes (bytes p) x) = x"
proof -
  have "bytes x \<le> bytes p"
    using assms by (intro bytes_mono) simp_all
  with assms(1) show "encode_1363 x (bytes p) = Inr (be_bytes (bytes p) x)"
    by (simp add: encode_1363_def)
  have "x < 256 ^ bytes p"
    using bytes_capacity [of p] assms by simp
  with assms(1) show "decode (be_bytes (bytes p) x) = x"
    by (simp add: decode_be_bytes)
qed

subsection \<open>From Jacobian to affine coordinates\<close>

lemma jacobian_to_affine_identity:
  fixes Z :: int
  shows "Z ^ 6 * (ay ^ 2 - (ax ^ 3 + a * ax + b))
     = (Y ^ 2 - (X ^ 3 + a * X * Z ^ 4 + b * Z ^ 6))
       + (Z ^ 3 * ay - Y) * (2 * Y + (Z ^ 3 * ay - Y))
       - (Z ^ 2 * ax - X) * (3 * X ^ 2 + 3 * X * (Z ^ 2 * ax - X) + (Z ^ 2 * ax - X) ^ 2)
       - a * Z ^ 4 * (Z ^ 2 * ax - X)"
  by algebra

lemma affine_of_jacobian:
  fixes p :: int
  assumes prime: "is_prime p"
    and Z: "\<not> p dvd Z"
    and i2: "(((Z * Z) mod p) * i2) mod p = 1"
    and i3: "(((Z * ((Z * Z) mod p)) mod p) * i3) mod p = 1"
    and hom: "Y ^ 2 mod p = (X ^ 3 + a * X * Z ^ 4 + b * Z ^ 6) mod p"
  shows "((Y * i3) mod p) ^ 2 mod p = (((X * i2) mod p) ^ 3 + a * ((X * i2) mod p) + b) mod p"
proof -
  define ax where "ax = (X * i2) mod p"
  define ay where "ay = (Y * i3) mod p"
  from prime have p: "1 < p" by (simp add: is_prime_def)
  have C: "p dvd (Z ^ 2 * i2 - 1)"
  proof -
    have "(Z ^ 2 * i2) mod p = (((Z * Z) mod p) * i2) mod p"
      by (simp add: power2_eq_square mod_mult_left_eq)
    also have "\<dots> = 1 mod p"
      using i2 p by simp
    finally show ?thesis
      by (simp only: mod_eq_dvd_iff)
  qed
  have D: "p dvd (Z ^ 3 * i3 - 1)"
  proof -
    have "(Z ^ 3 * i3) mod p = (((Z * ((Z * Z) mod p)) mod p) * i3) mod p"
      by (simp add: power3_eq_cube mod_mult_left_eq mod_mult_right_eq mult.assoc)
    also have "\<dots> = 1 mod p"
      using i3 p by simp
    finally show ?thesis
      by (simp only: mod_eq_dvd_iff)
  qed
  have B: "p dvd (ax - X * i2)"
    unfolding ax_def by (simp add: mod_eq_dvd_iff [symmetric])
  have A: "p dvd (ay - Y * i3)"
    unfolding ay_def by (simp add: mod_eq_dvd_iff [symmetric])
  have E: "p dvd (Y ^ 2 - (X ^ 3 + a * X * Z ^ 4 + b * Z ^ 6))"
    using hom by (simp only: mod_eq_dvd_iff)
  have "Z ^ 3 * ay - Y = Y * (Z ^ 3 * i3 - 1) + Z ^ 3 * (ay - Y * i3)"
    by (simp add: algebra_simps)
  with A D have F: "p dvd (Z ^ 3 * ay - Y)"
    by simp
  have "Z ^ 2 * ax - X = X * (Z ^ 2 * i2 - 1) + Z ^ 2 * (ax - X * i2)"
    by (simp add: algebra_simps)
  with B C have G: "p dvd (Z ^ 2 * ax - X)"
    by simp
  have "p dvd Z ^ 6 * (ay ^ 2 - (ax ^ 3 + a * ax + b))"
    unfolding jacobian_to_affine_identity [of Z ay ax a b Y X]
    by (intro dvd_add dvd_diff dvd_mult2 dvd_mult E F G)
  moreover have "\<not> p dvd Z ^ 6"
    using is_prime_dvd_power [OF prime] Z by blast
  ultimately have "p dvd (ay ^ 2 - (ax ^ 3 + a * ax + b))"
    using is_prime_dvd_mult [OF prime] by blast
  then show ?thesis
    by (simp only: mod_eq_dvd_iff ax_def ay_def)
qed


lemma valid_curve_prime: "valid_curve c \<Longrightarrow> is_prime (get_p c)"
  by (simp add: valid_curve_def)

lemma r_inv_not_dvd:
  assumes "valid_curve c"
  shows "\<not> get_p c dvd get_r_inv c"
proof
  assume "get_p c dvd get_r_inv c"
  then have "(get_r c * get_r_inv c) mod get_p c = 0"
    by (simp add: mod_eq_0_iff_dvd)
  with valid_curve_r [OF assms] show False by simp
qed

lemma demontgomery_z_unit:
  assumes "valid_curve c" "0 < z" "z < get_p c"
  shows "\<not> get_p c dvd (get_r_inv c * z) mod get_p c"
proof -
  have "\<not> get_p c dvd z"
    using assms(2,3) by (simp add: zdvd_not_zless)
  with r_inv_not_dvd [OF assms(1)] is_prime_dvd_mult [OF valid_curve_prime [OF assms(1)]]
  have "\<not> get_p c dvd get_r_inv c * z"
    by blast
  then show ?thesis
    by (simp add: dvd_mod_iff)
qed

lemma valid_point_affine:
  assumes "valid_curve (curve P)" "valid_point P" "\<not> is_zero P"
  shows "\<exists>ax ay. get_affine_x P = Inr ax \<and> get_affine_y P = Inr ay
           \<and> 0 \<le> ax \<and> ax < get_p (curve P) \<and> 0 \<le> ay \<and> ay < get_p (curve P)
           \<and> on_curve (curve P) ax ay"
proof -
  define c where "c = curve P"
  define p where "p = get_p c"
  define X where "X = (get_r_inv c * coord_x P) mod p"
  define Y where "Y = (get_r_inv c * coord_y P) mod p"
  define Z where "Z = (get_r_inv c * coord_z P) mod p"
  define i2 where "i2 = inverse_mod ((Z * Z) mod p) p"
  define i3 where "i3 = inverse_mod ((Z * ((Z * Z) mod p)) mod p) p"
  have vc: "valid_curve c" using assms(1) by (simp add: c_def)
  have prime: "is_prime p" using valid_curve_prime [OF vc] by (simp add: p_def)
  then have p: "1 < p" by (simp add: is_prime_def)
  have "0 < coord_z P" "coord_z P < p"
    using assms(2,3) by (auto simp: valid_point_def is_zero_def p_def c_def)
  then have Z: "\<not> p dvd Z"
    using demontgomery_z_unit [OF vc, of "coord_z P"] by (simp add: Z_def p_def)
  have Z2: "\<not> p dvd (Z * Z) mod p"
    using Z is_prime_dvd_mult [OF prime, of Z Z] by (auto simp: dvd_mod_iff)
  have Z3: "\<not> p dvd (Z * ((Z * Z) mod p)) mod p"
    using Z Z2 is_prime_dvd_mult [OF prime, of Z "(Z * Z) mod p"] by (auto simp: dvd_mod_iff)
  have i2: "(((Z * Z) mod p) * i2) mod p = 1"
    unfolding i2_def by (rule inverse_mod_correct [OF prime Z2])
  have i3: "(((Z * ((Z * Z) mod p)) mod p) * i3) mod p = 1"
    unfolding i3_def by (rule inverse_mod_correct [OF prime Z3])
  have "check_invariants P = Inr ()"
    using assms(2) by (simp add: valid_point_def)
  then have hom: "Y ^ 2 mod p = (X ^ 3 + get_a c * X * Z ^ 4 + get_b c * Z ^ 6) mod p"
    unfolding check_invariants_finite [OF assms(3)] c_def [symmetric] p_def [symmetric]
      X_def [symmetric] Y_def [symmetric] Z_def [symmetric]
    by (simp split: if_splits)
  have ax: "get_affine_x P = Inr ((X * i2) mod p)"
    using assms(3)
    by (simp add: get_affine_x_def Let_def multiply_def square_def reduce_def
        c_def p_def X_def Z_def i2_def)
  have ay: "get_affine_y P = Inr ((Y * i3) mod p)"
    using assms(3)
    by (simp add: get_affine_y_def Let_def multiply_def square_def cube_def reduce_def
        c_def p_def Y_def Z_def i3_def)
  have "on_curve c ((X * i2) mod p) ((Y * i3) mod p)"
    unfolding on_curve_def p_def [symmetric]
    by (rule affine_of_jacobian [OF prime Z i2 i3 hom])
  with ax ay p show ?thesis
    by (auto simp: c_def p_def)
qed

subsection \<open>Decompression returns the encoded root\<close>

lemma get_bit_0: "get_bit n 0 = odd n"
  by (simp add: get_bit_def)

lemma decompress_point_roundtrip:
  assumes "valid_curve c" "0 \<le> y" "y < get_p c" "on_curve c x y"
  shows "decompress_point (get_bit y 0) x c = Inr y"
proof -
  define p where "p = get_p c"
  define z where "z = ressol ((get_a c * x + x * x * x + get_b c) mod get_p c) (get_p c)"
  have prime: "is_prime p" using valid_curve_prime [OF assms(1)] by (simp add: p_def)
  have hs: "has_sqrt c x"
    using assms(2-4) by (auto simp: has_sqrt_def)
  then have "\<not> z < 0"
    using ressol_negative_iff [of c x] by (simp add: z_def)
  from ressol_root [OF this [unfolded z_def]]
  have z: "0 \<le> z" "z < p" "on_curve c x z"
    by (simp_all add: z_def p_def)
  have "z ^ 2 mod p = y ^ 2 mod p"
    using z(3) assms(4) by (simp add: on_curve_def p_def)
  then have "p dvd z ^ 2 - y ^ 2"
    by (simp only: mod_eq_dvd_iff)
  moreover have "z ^ 2 - y ^ 2 = (z - y) * (z + y)"
    by (simp add: power2_eq_square algebra_simps)
  ultimately have "p dvd z - y \<or> p dvd z + y"
    using is_prime_dvd_mult [OF prime] by simp
  then have "(if get_bit z 0 \<noteq> get_bit y 0 then p - z else z) = y"
  proof
    assume "p dvd z - y"
    moreover have "\<bar>z - y\<bar> < p"
      using z(1,2) assms(2,3) by (simp add: p_def abs_if)
    ultimately have "z - y = 0"
      using zdvd_not_zless [of "\<bar>z - y\<bar>" p] by (cases "z - y = 0") auto
    then show ?thesis by simp
  next
    assume d: "p dvd z + y"
    then obtain k where k: "z + y = p * k" ..
    have "0 \<le> z + y" "z + y < 2 * p"
      using z(1,2) assms(2,3) by (simp_all add: p_def)
    with k have pk: "0 \<le> p * k" "p * k < 2 * p"
      by simp_all
    have pos: "0 < p"
      using prime by (simp add: is_prime_def)
    have "k < 2"
    proof (rule ccontr)
      assume "\<not> k < 2"
      then have "p * 2 \<le> p * k"
        using pos by (intro mult_left_mono) simp_all
      with pk(2) show False by simp
    qed
    moreover have "0 \<le> k"
    proof (rule ccontr)
      assume "\<not> 0 \<le> k"
      then have "p * k \<le> p * (- 1)"
        using pos by (intro mult_left_mono) simp_all
      with pk(1) pos show False by simp
    qed
    ultimately have "0 \<le> k" "k < 2"
      by simp_all
    then have "k = 0 \<or> k = 1" by auto
    then show ?thesis
    proof
      assume "k = 0"
      with k z(1) assms(2) have "z = 0" "y = 0" by simp_all
      then show ?thesis by simp
    next
      assume "k = 1"
      with k have sum: "z + y = p" by simp
      show ?thesis
      proof (cases "p = 2")
        case True
        with sum z(2) assms(3) have "z = 1" "y = 1"
          by (simp_all add: p_def)
        then show ?thesis by simp
      next
        case False
        from is_prime_odd [OF prime False] sum have "odd z \<noteq> odd y"
          by (metis even_add)
        with sum show ?thesis
          by (simp add: get_bit_0)
      qed
    qed
  qed
  then have "(if get_bit z 0 \<noteq> get_bit y 0 then get_p c - z else z) = y"
    by (simp only: p_def)
  with hs show ?thesis
    unfolding decompress_point_cases Let_def z_def [symmetric] by simp
qed


subsection \<open>Encoding followed by decoding\<close>

lemma affine_of_PointGFp_xy:
  assumes "valid_curve c" "0 \<le> x" "x < get_p c" "0 \<le> y" "y < get_p c"
  shows "get_affine_x (PointGFp_xy c x y) = Inr x"
    and "get_affine_y (PointGFp_xy c x y) = Inr y"
proof -
  have p: "1 < get_p c" by (rule valid_curve_gt1 [OF assms(1)])
  have cx: "multiply c (get_r_inv c) (coord_x (PointGFp_xy c x y)) = x"
    using demontgomery_lifted [OF assms(1), of x] assms(2,3)
    by (simp add: PointGFp_xy_def multiply_def [of c "get_r_inv c"] reduce_def)
  have cy: "multiply c (get_r_inv c) (coord_y (PointGFp_xy c x y)) = y"
    using demontgomery_lifted [OF assms(1), of y] assms(4,5)
    by (simp add: PointGFp_xy_def multiply_def [of c "get_r_inv c"] reduce_def)
  have cz: "multiply c (get_r_inv c) (coord_z (PointGFp_xy c x y)) = 1"
    using demontgomery_one [OF assms(1)]
    by (simp add: PointGFp_xy_def multiply_def [of c "get_r_inv c"] reduce_def [of c "_ * _"])
  have cc: "curve (PointGFp_xy c x y) = c"
    by (simp add: PointGFp_xy_def)
  have sq: "square c 1 = 1" "cube c 1 = 1"
    using p by (simp_all add: square_def cube_def multiply_def reduce_def)
  show "get_affine_x (PointGFp_xy c x y) = Inr x"
    using PointGFp_xy_finite [OF assms(1), of x y] assms(2,3) p
    by (simp add: get_affine_x_def Let_def cc cx cz sq inverse_mod_one)
       (simp add: multiply_def reduce_def)
  show "get_affine_y (PointGFp_xy c x y) = Inr y"
    using PointGFp_xy_finite [OF assms(1), of x y] assms(4,5) p
    by (simp add: get_affine_y_def Let_def cc cy cz sq inverse_mod_one)
       (simp add: multiply_def reduce_def)
qed

lemma op_eq_decoded:
  assumes "valid_curve (curve P)" "\<not> is_zero P"
    and "get_affine_x P = Inr x" "get_affine_y P = Inr y"
    and "0 \<le> x" "x < get_p (curve P)" "0 \<le> y" "y < get_p (curve P)"
  shows "op_eq (PointGFp_xy (curve P) x y) P = Inr True"
    and "op_eq P (PointGFp_xy (curve P) x y) = Inr True"
  using PointGFp_xy_finite [OF assms(1), of x y] assms(2)
  by (simp_all add: op_eq_def affine_of_PointGFp_xy [OF assms(1) assms(5-8)] assms(3,4))
     (simp_all add: PointGFp_xy_def curve_eq_def)

lemma OS2ECP_of_uncompressed:
  assumes "valid_curve c" "on_curve c x y" "length bX = k" "length bY = k" "0 < k"
    "decode bX = x" "decode bY = y"
  shows "OS2ECP (4 # bX @ bY) c = Inr (PointGFp_xy c x y)"
proof -
  have l: "(length (4 # bX @ bY) - 1) div 2 = k"
    using assms(3,4) by simp
  have "OS2ECP (4 # bX @ bY) c = checked_point c (decode (take k (drop 1 (4 # bX @ bY))))
       (decode (take k (drop (k + 1) (4 # bX @ bY))))"
    using assms(5) by (subst OS2ECP_uncompressed) (simp_all only: l, simp_all add: assms(3,4))
  also have "take k (drop 1 (4 # bX @ bY)) = bX"
    using assms(3) by simp
  also have "take k (drop (k + 1) (4 # bX @ bY)) = bY"
    using assms(3,4) by simp
  finally show ?thesis
    using assms(2) by (simp add: checked_point_cases [OF assms(1)] assms(6,7))
qed

lemma OS2ECP_of_compressed:
  assumes "valid_curve c" "on_curve c x y" "0 \<le> y" "y < get_p c" "0 < length bX"
    "decode bX = x"
  shows "OS2ECP ((if get_bit y 0 then 2 OR 1 else 2) # bX) c = Inr (PointGFp_xy c x y)"
proof -
  define tag :: byte where "tag = (if get_bit y 0 then 2 OR 1 else 2)"
  have tag: "tag = 2 \<or> tag = 3" "(tag AND 1 = 1) = get_bit y 0"
    by (simp_all add: tag_def)
  have len: "1 < length (tag # bX)"
    using assms(5) by simp
  have t0: "(tag # bX) ! 0 = 2 \<or> (tag # bX) ! 0 = 3"
    using tag(1) by simp
  have d: "decode (drop 1 (tag # bX)) = x"
    using assms(6) by simp
  note step = OS2ECP_compressed [OF len t0, of c, unfolded d nth_Cons_0 tag(2)]
  show ?thesis
    unfolding tag_def [symmetric] step
    using assms(2)
    by (simp add: decompress_point_roundtrip [OF assms(1,3,4,2)] checked_point_cases [OF assms(1)])
qed

lemma OS2ECP_of_hybrid:
  assumes "valid_curve c" "on_curve c x y" "0 \<le> y" "y < get_p c"
    "length bX = k" "length bY = k" "0 < k" "decode bX = x" "decode bY = y"
  shows "OS2ECP ((if get_bit y 0 then 6 OR 1 else 6) # bX @ bY) c = Inr (PointGFp_xy c x y)"
proof -
  define tag :: byte where "tag = (if get_bit y 0 then 6 OR 1 else 6)"
  have tag: "tag = 6 \<or> tag = 7" "(tag AND 1 = 1) = get_bit y 0"
    by (simp_all add: tag_def)
  have l: "(length (tag # bX @ bY) - 1) div 2 = k"
    using assms(5,6) by simp
  have tx: "take k (drop 1 (tag # bX @ bY)) = bX"
    using assms(5) by simp
  have ty: "take k (drop (k + 1) (tag # bX @ bY)) = bY"
    using assms(5,6) by simp
  have len: "1 < length (tag # bX @ bY)"
    using assms(5,7) by simp
  have t0: "(tag # bX @ bY) ! 0 = 6 \<or> (tag # bX @ bY) ! 0 = 7"
    using tag(1) by simp
  note step = OS2ECP_hybrid_result [OF assms(1) len t0, unfolded l tx ty nth_Cons_0 tag(2) assms(8,9)]
  show ?thesis
    unfolding tag_def [symmetric] step
    by (simp add: decompress_point_roundtrip [OF assms(1,3,4,2)])
qed

lemma EC2OSP_zero: "is_zero P \<Longrightarrow> EC2OSP P format = Inr [0]"
  by (simp add: EC2OSP_def)

lemma roundtrip_finite:
  assumes "valid_curve (curve P)" "valid_point P" "\<not> is_zero P" "format \<noteq> UNKNOWN_FORMAT"
  shows "\<exists>data Q. EC2OSP P format = Inr data \<and> OS2ECP data (curve P) = Inr Q
           \<and> op_eq Q P = Inr True \<and> op_eq P Q = Inr True"
proof -
  define c where "c = curve P"
  define k where "k = bytes (get_p c)"
  from valid_point_affine [OF assms(1-3)] obtain x y where
    xy: "get_affine_x P = Inr x" "get_affine_y P = Inr y"
      "0 \<le> x" "x < get_p c" "0 \<le> y" "y < get_p c" "on_curve c x y"
    by (auto simp: c_def)
  have vc: "valid_curve c" using assms(1) by (simp add: c_def)
  have k: "0 < k"
    using bytes_positive [OF valid_curve_gt1 [OF vc]] by (simp add: k_def)
  define bX where "bX = be_bytes k x"
  define bY where "bY = be_bytes k y"
  have enc: "encode_1363 x k = Inr bX" "encode_1363 y k = Inr bY"
    and dec: "decode bX = x" "decode bY = y"
    using encode_1363_residue [OF xy(3,4)] encode_1363_residue [OF xy(5,6)]
    by (simp_all add: k_def bX_def bY_def)
  have len: "length bX = k" "length bY = k"
    by (simp_all add: bX_def bY_def length_be_bytes)
  have eq: "op_eq (PointGFp_xy c x y) P = Inr True" "op_eq P (PointGFp_xy c x y) = Inr True"
    using op_eq_decoded [OF assms(1,3) xy(1,2)] xy(3-6) by (simp_all add: c_def)
  have E: "EC2OSP P format =
      (if format = UNCOMPRESSED then Inr (4 # bX @ bY)
       else if format = COMPRESSED then Inr ((if get_bit y 0 then 2 OR 1 else 2) # bX)
       else Inr ((if get_bit y 0 then 6 OR 1 else 6) # bX @ bY))"
    using assms(3,4)
    by (cases format)
       (simp_all add: EC2OSP_def Let_def xy(1,2) c_def [symmetric] k_def [symmetric] enc)
  consider "format = UNCOMPRESSED" | "format = COMPRESSED" | "format = HYBRID"
    using assms(4) by (cases format) simp_all
  then show ?thesis
  proof cases
    case 1
    with E OS2ECP_of_uncompressed [OF vc xy(7) len k dec] eq show ?thesis
      by (simp add: c_def)
  next
    case 2
    have "0 < length bX" using len k by simp
    from 2 E OS2ECP_of_compressed [OF vc xy(7) xy(5,6) this dec(1)] eq show ?thesis
      by (simp add: c_def)
  next
    case 3
    with E OS2ECP_of_hybrid [OF vc xy(7) xy(5,6) len k dec] eq show ?thesis
      by (simp add: c_def)
  qed
qed

lemma valid_toy_point: "valid_point (PointGFp_xy toy_curve 3 10)"
  unfolding valid_point_def check_invariants_xy [OF valid_toy_curve]
  by (simp add: PointGFp_xy_def toy_curve_def multiply_def reduce_def)

text \<open>
  Claim C4: for a valid finite point \<open>P\<close> (coordinates reduced, invariant check passed) on
  a curve with prime modulus, and each of the three formats, \<open>EC2OSP\<close> returns an octet
  string, \<open>OS2ECP\<close> on it and the same curve returns a point, and that point is \<open>==\<close> to \<open>P\<close>
  (in both argument orders). The point at infinity encodes to the single zero byte under
  any format, and the single zero byte decodes to the point at infinity.
\<close>

theorem EC2OSP_OS2ECP_roundtrip:
  "(valid_curve (curve P) \<and> valid_point P \<and> \<not> is_zero P \<and> format \<noteq> UNKNOWN_FORMAT \<longrightarrow>
      (\<exists>data Q. EC2OSP P format = Inr data \<and> OS2ECP data (curve P) = Inr Q
         \<and> op_eq Q P = Inr True \<and> op_eq P Q = Inr True))
   \<and> (is_zero P \<longrightarrow> EC2OSP P format = Inr [0])
   \<and> EC2OSP (PointGFp_zero c) format = Inr [0]
   \<and> OS2ECP [0] c = Inr (PointGFp_zero c)"
proof -
  have "is_zero (PointGFp_zero c)"
    by (simp add: is_zero_def PointGFp_zero_def)
  then have "EC2OSP (PointGFp_zero c) format = Inr [0]"
    by (rule EC2OSP_zero)
  then show ?thesis
    using roundtrip_finite [of P format] by (simp add: EC2OSP_zero OS2ECP_short)
qed

theorem EC2OSP_OS2ECP_roundtrip_witness:
  "valid_curve toy_curve \<and> valid_point (PointGFp_xy toy_curve 3 10)
   \<and> \<not> is_zero (PointGFp_xy toy_curve 3 10)
   \<and> (\<exists>data Q. EC2OSP (PointGFp_xy toy_curve 3 10) COMPRESSED = Inr data
          \<and> OS2ECP data toy_curve = Inr Q
          \<and> op_eq Q (PointGFp_xy toy_curve 3 10) = Inr True)
   \<and> (\<exists>data Q. EC2OSP (PointGFp_xy toy_curve 3 10) UNCOMPRESSED = Inr data
          \<and> OS2ECP data toy_curve = Inr Q
          \<and> op_eq Q (PointGFp_xy toy_curve 3 10) = Inr True)
   \<and> (\<exists>data Q. EC2OSP (PointGFp_xy toy_curve 3 10) HYBRID = Inr data
          \<and> OS2ECP data toy_curve = Inr Q
          \<and> op_eq Q (PointGFp_xy toy_curve 3 10) = Inr True)"
proof -
  have c: "curve (PointGFp_xy toy_curve 3 10) = toy_curve"
    by (simp add: PointGFp_xy_def)
  have f: "\<not> is_zero (PointGFp_xy toy_curve 3 10)"
    by (rule PointGFp_xy_finite [OF valid_toy_curve])
  have "\<exists>data Q. EC2OSP (PointGFp_xy toy_curve 3 10) fmt = Inr data
          \<and> OS2ECP data toy_curve = Inr Q
          \<and> op_eq Q (PointGFp_xy toy_curve 3 10) = Inr True"
    if "fmt \<noteq> UNKNOWN_FORMAT" for fmt
    using EC2OSP_OS2ECP_roundtrip [of "PointGFp_xy toy_curve 3 10" fmt] that
      valid_toy_curve valid_toy_point f
    unfolding c by blast
  from this [of COMPRESSED] this [of UNCOMPRESSED] this [of HYBRID]
    valid_toy_curve valid_toy_point f
  show ?thesis by simp
qed

subsection \<open>Parity of a decompressed point away from the root 0\<close>

text \<open>
  On a curve with an odd prime modulus the value \<open>decompress_point\<close> returns has the parity
  asked for. It is a residue, and so the affine \<open>y\<close> of the decoded point, unless the tag
  is 3 and the right-hand side of the curve equation is 0 at \<open>x\<close>.
\<close>

lemma decompress_point_parity:
  assumes "valid_curve c" "get_p c \<noteq> 2" "decompress_point yMod2 x c = Inr y"
  shows "get_bit y 0 = yMod2"
proof -
  let ?z = "ressol ((get_a c * x + x * x * x + get_b c) mod get_p c) (get_p c)"
  from assms(3) have y: "y = (if get_bit ?z 0 \<noteq> yMod2 then get_p c - ?z else ?z)"
    by (auto simp: decompress_point_def Let_def split: if_splits)
  have "odd (get_p c)"
    using is_prime_odd [OF valid_curve_prime [OF assms(1)] assms(2)] .
  then show ?thesis
    unfolding y by (auto simp: get_bit_0)
qed

lemma OS2ECP_compressed_parity:
  assumes "valid_curve c" "get_p c \<noteq> 2" "1 < length data" "data ! 0 = 2 \<or> data ! 0 = 3"
    and "OS2ECP data c = Inr Q"
    and "data ! 0 = 3 \<longrightarrow> \<not> on_curve c (decode (drop 1 data)) 0"
  shows "\<exists>y. get_affine_y Q = Inr y \<and> get_bit y 0 = (data ! 0 AND 1 = 1)"
proof -
  define x where "x = decode (drop 1 data)"
  define p where "p = get_p c"
  define z where "z = ressol ((get_a c * x + x * x * x + get_b c) mod get_p c) (get_p c)"
  define y where "y = (if get_bit z 0 \<noteq> (data ! 0 AND 1 = 1) then p - z else z)"
  have odd: "odd p"
    using is_prime_odd [OF valid_curve_prime [OF assms(1)] assms(2)] by (simp add: p_def)
  from assms(5) have hs: "has_sqrt c x" and Q: "Q = PointGFp_xy c x y"
    unfolding OS2ECP_compressed_result [OF assms(1,3,4)] x_def [symmetric]
    by (simp_all add: Let_def y_def z_def p_def split: if_splits)
  from hs have "\<not> z < 0"
    using ressol_negative_iff [of c x] by (simp add: z_def)
  from ressol_root [OF this [unfolded z_def]]
  have zr: "0 \<le> z" "z < p" "on_curve c x z"
    by (simp_all add: z_def p_def)
  have tag: "(data ! 0 AND 1 = 1) \<longleftrightarrow> data ! 0 = 3"
    using assms(4) by auto
  have "z = 0 \<Longrightarrow> \<not> (data ! 0 AND 1 = 1)"
    using zr(3) assms(6) tag by (auto simp: x_def)
  then have yr: "0 \<le> y" "y < p"
    using zr(1,2) by (auto simp: y_def get_bit_0 intro!: order.not_eq_order_implies_strict)
  have par: "get_bit y 0 = (data ! 0 AND 1 = 1)"
    using odd by (auto simp: y_def get_bit_0)
  have "0 \<le> x mod p" "x mod p < p"
    using zr(1,2) by simp_all
  have "get_affine_y Q = Inr y"
  proof -
    have "PointGFp_xy c x y = PointGFp_xy c (x mod p) y"
      by (simp add: PointGFp_xy_def multiply_def reduce_def p_def mod_mult_right_eq)
    with affine_of_PointGFp_xy(2) [OF assms(1), of "x mod p" y] yr zr(1,2)
    show ?thesis
      by (simp add: Q p_def)
  qed
  with par show ?thesis by blast
qed

subsection \<open>The toy curve\<close>

text \<open>
  The model on the spec's concrete scenario: on \<open>p = 23\<close>, \<open>a = 1\<close>, \<open>b = 1\<close> the point
  \<open>(3, 10)\<close> added to itself, doubled, and multiplied by 2 gives \<open>(7, 12)\<close>, and the window
  loop gives \<open>7\<cdot>(3, 10) = (11, 3)\<close>.
\<close>

lemma toy_double:
  "add (PointGFp_xy toy_curve 3 10) (PointGFp_xy toy_curve 3 10)
     = Some \<lparr>curve = toy_curve, coord_x = 20, coord_y = 22, coord_z = 10\<rparr>
   \<and> mult2 (PointGFp_xy toy_curve 3 10)
     = Some \<lparr>curve = toy_curve, coord_x = 20, coord_y = 22, coord_z = 10\<rparr>
   \<and> op_mul (PointGFp_xy toy_curve 3 10) 2
     = Some \<lparr>curve = toy_curve, coord_x = 20, coord_y = 22, coord_z = 10\<rparr>
   \<and> get_affine_x \<lparr>curve = toy_curve, coord_x = 20, coord_y = 22, coord_z = 10\<rparr> = Inr 7
   \<and> get_affine_y \<lparr>curve = toy_curve, coord_x = 20, coord_y = 22, coord_z = 10\<rparr> = Inr 12"
  by code_simp

lemma toy_times_7:
  "op_mul (PointGFp_xy toy_curve 3 10) 7
     = Some \<lparr>curve = toy_curve, coord_x = 15, coord_y = 6, coord_z = 13\<rparr>
   \<and> get_affine_x \<lparr>curve = toy_curve, coord_x = 15, coord_y = 6, coord_z = 13\<rparr> = Inr 11
   \<and> get_affine_y \<lparr>curve = toy_curve, coord_x = 15, coord_y = 6, coord_z = 13\<rparr> = Inr 3"
  by code_simp

end
